theory Spec2Isabelle
  imports Main "HOL-Library.Word"
begin

section \<open>The trie committer of trie/committer.go\<close>

subsection \<open>Node model\<close>

text \<open>
  A byte slice is a list of 8-bit words. Paths, keys, node blobs, cached hashes
  (\<open>hashNode\<close>) and \<open>common.Hash\<close> values are all byte lists.
\<close>

type_synonym bytes = "8 word list"

text \<open>
  \<open>nodeFlag\<close>: the cache pair carried by every shortNode and fullNode. The cached
  hash is a \<open>hashNode\<close> that may be nil, hence an option.
\<close>

record nodeFlag =
  hash :: "bytes option"
  dirty :: bool

text \<open>
  The \<open>node\<close> interface has four implementations and the nil interface value.
  \<open>fullNode.Children\<close> is a \<open>[17]node\<close> array; it is kept as a list and read
  through \<open>slot\<close>, which yields the nil node beyond the end of the list (a position
  a 17-slot array does not have).
\<close>

datatype node =
    NilNode
  | ShortNode bytes node nodeFlag
  | FullNode "node list" nodeFlag
  | HashNode bytes
  | ValueNode bytes

definition slot :: "node list \<Rightarrow> nat \<Rightarrow> node" where
  "slot cs i = (if i < length cs then cs ! i else NilNode)"

text \<open>Every panic and every blocked goroutine of the source is a value of \<open>fault\<close>.\<close>

datatype fault =
    NilDereference            \<comment> \<open>a method call on the nil interface value\<close>
  | InvalidNode node          \<comment> \<open>\<open>panic(fmt.Sprintf("%T: invalid node: %v", n, n))\<close>\<close>
  | TypeAssertion node        \<comment> \<open>a failed \<open>x.(T)\<close>; carries the value asserted on\<close>
  | NodeType node             \<comment> \<open>\<open>panic(fmt.Sprintf("node type %T", n))\<close>\<close>
  | DecodeFailure             \<comment> \<open>the panic of \<open>mustDecodeNodeUnsafe\<close>\<close>
  | NilChannel                \<comment> \<open>receiving from a nil channel blocks forever\<close>

text \<open>
  Modelled from the spec: the method \<open>cache\<close> of the node interface (declared in
  node.go, which is not part of the sources). A ShortNode or FullNode carries the
  pair \<open>(hash, dirty)\<close>; a HashNode or ValueNode carries no cached hash and counts as
  dirty; on the nil interface value the call is a nil dereference.
\<close>

fun cache :: "node \<Rightarrow> fault + (bytes option \<times> bool)" where
  "cache NilNode = Inl NilDereference"
| "cache (ShortNode k v f) = Inr (hash f, dirty f)"
| "cache (FullNode cs f) = Inr (hash f, dirty f)"
| "cache (HashNode h) = Inr (None, True)"
| "cache (ValueNode v) = Inr (None, True)"

subsection \<open>Collaborators\<close>

text \<open>
  Functions of other files that the committer calls are parameters of the model:
  \<open>hexToCompact\<close> (encoding.go), \<open>nodeToBytes\<close> (the RLP encoder),
  \<open>common.BytesToHash\<close> and \<open>mustDecodeNodeUnsafe\<close>.

  Modelled from the spec: \<open>mustDecodeNodeUnsafe\<close> (node.go, not part of the sources)
  decodes the bytes of an encoded node; any undecodable shape is a fatal decode
  error, here the fault it returns.
\<close>

record externals =
  hexToCompact :: "bytes \<Rightarrow> bytes"
  nodeToBytes :: "node \<Rightarrow> bytes"
  BytesToHash :: "bytes \<Rightarrow> bytes"
  mustDecodeNodeUnsafe :: "bytes \<Rightarrow> fault + node"

text \<open>
  Modelled from the spec: the Node Set (package trienode, not part of the sources).
  A keyed mapping from tree path to \<open>Written{digest, encoded_bytes}\<close> or \<open>Deleted\<close>,
  and the leaf entries \<open>(digest, leaf_value)\<close>, kept in insertion order.
\<close>

datatype nodeEntry = Written bytes bytes | Deleted

record NodeSet =
  Nodes :: "bytes \<rightharpoonup> nodeEntry"
  Leaves :: "(bytes \<times> bytes) list"

definition AddNode :: "bytes \<Rightarrow> nodeEntry \<Rightarrow> NodeSet \<Rightarrow> NodeSet" where
  "AddNode path n ns = ns\<lparr>Nodes := (Nodes ns)(path \<mapsto> n)\<rparr>"

definition AddLeaf :: "bytes \<Rightarrow> bytes \<Rightarrow> NodeSet \<Rightarrow> NodeSet" where
  "AddLeaf parent blob ns = ns\<lparr>Leaves := Leaves ns @ [(parent, blob)]\<rparr>"

subsection \<open>The committer\<close>

text \<open>
  \<open>leafInfo\<close> is the message sent over \<open>leafCh\<close>: the stored node and its hash.
\<close>

type_synonym leafInfo = "node \<times> bytes"

text \<open>
  \<open>triestate.LeafCallback\<close> returns an \<open>error\<close>; the committer calls it with the
  leaf blob and the parent hash only (all other arguments are nil). Its effect on
  the caller's side is a state \<open>'w\<close> that the callback transforms.
\<close>

type_synonym 'w LeafCallback = "bytes \<Rightarrow> bytes \<Rightarrow> 'w \<Rightarrow> string option \<times> 'w"

text \<open>
  The committer: the node set, the tracer's \<open>accessList\<close>, the leaf callback (nil or
  a function) and the leaf channel (nil, or the messages sent and not yet received,
  oldest first).
\<close>

record 'w committer =
  nodes :: NodeSet
  tracer :: "bytes \<rightharpoonup> bytes"
  onleaf :: "'w LeafCallback option"
  leafCh :: "leafInfo list option"

text \<open>\<open>store\<close>, lines 155-193.\<close>

definition store ::
  "externals \<Rightarrow> 'w committer \<Rightarrow> bytes \<Rightarrow> node \<Rightarrow> fault + (node \<times> 'w committer)" where
  "store X c path n =
     (case cache n of
        Inl e \<Rightarrow> Inl e
      | Inr (hsh, _) \<Rightarrow>
          (case hsh of
             None \<Rightarrow>
               (case tracer c path of
                  Some _ \<Rightarrow> Inr (n, c\<lparr>nodes := AddNode path Deleted (nodes c)\<rparr>)
                | None \<Rightarrow> Inr (n, c))
           | Some h \<Rightarrow>
               (let nhash = BytesToHash X h;
                    c1 = c\<lparr>nodes := AddNode path (Written nhash (nodeToBytes X n)) (nodes c)\<rparr>
                in case leafCh c1 of
                     Some q \<Rightarrow> Inr (HashNode h, c1\<lparr>leafCh := Some (q @ [(n, nhash)])\<rparr>)
                   | None \<Rightarrow>
                       (case n of
                          ShortNode k (ValueNode val) f \<Rightarrow>
                            Inr (HashNode h, c1\<lparr>nodes := AddLeaf nhash val (nodes c1)\<rparr>)
                        | _ \<Rightarrow> Inr (HashNode h, c1)))))"

text \<open>Sizes of children, for the termination of the recursion over a fullNode.\<close>

lemma size_nth_less: "i < length cs \<Longrightarrow> size (cs ! i) < size_list size cs"
proof (induction cs arbitrary: i)
  case Nil
  then show ?case by simp
next
  case (Cons a cs)
  show ?case
  proof (cases i)
    case 0
    then show ?thesis by simp
  next
    case (Suc j)
    with Cons.prems have "j < length cs" by simp
    from Cons.IH [OF this] Suc show ?thesis by simp
  qed
qed

lemma size_slot_less:
  "slot cs i = n \<Longrightarrow> n \<noteq> NilNode \<longrightarrow> size n < size_list size cs"
  using size_nth_less [of i cs] by (auto simp add: slot_def split: if_splits)

text \<open>\<open>commit\<close>, lines 83-124, and the loop of \<open>commitChildren\<close>, lines 129-145.\<close>

function (sequential)
  commit :: "externals \<Rightarrow> 'w committer \<Rightarrow> bytes \<Rightarrow> node \<Rightarrow> fault + (node \<times> 'w committer)"
  and commitChildren_loop ::
    "externals \<Rightarrow> 'w committer \<Rightarrow> bytes \<Rightarrow> node list \<Rightarrow> nat \<Rightarrow> node list
       \<Rightarrow> fault + (node list \<times> 'w committer)"
where
  "commit X c path n =
     (case cache n of
        Inl e \<Rightarrow> Inl e
      | Inr (hsh, drt) \<Rightarrow>
          if hsh \<noteq> None \<and> \<not> drt then Inr (HashNode (the hsh), c)
          else
            (case n of
               ShortNode k v f \<Rightarrow>
                 (case (case v of
                          FullNode cs' f' \<Rightarrow> commit X c (path @ k) v
                        | _ \<Rightarrow> Inr (v, c)) of
                    Inl e \<Rightarrow> Inl e
                  | Inr (v', c1) \<Rightarrow>
                      (case store X c1 path (ShortNode (hexToCompact X k) v' f) of
                         Inl e \<Rightarrow> Inl e
                       | Inr (hashedNode, c2) \<Rightarrow>
                           (case hashedNode of
                              HashNode hn \<Rightarrow> Inr (HashNode hn, c2)
                            | _ \<Rightarrow> Inr (ShortNode (hexToCompact X k) v' f, c2))))
             | FullNode cs f \<Rightarrow>
                 (case commitChildren_loop X c path cs 0 (replicate 17 NilNode) of
                    Inl e \<Rightarrow> Inl e
                  | Inr (hashedKids, c1) \<Rightarrow>
                      (case store X c1 path (FullNode hashedKids f) of
                         Inl e \<Rightarrow> Inl e
                       | Inr (hashedNode, c2) \<Rightarrow>
                           (case hashedNode of
                              HashNode hn \<Rightarrow> Inr (HashNode hn, c2)
                            | _ \<Rightarrow> Inr (FullNode hashedKids f, c2))))
             | HashNode h \<Rightarrow> Inr (HashNode h, c)
             | _ \<Rightarrow> Inl (InvalidNode n)))"
| "commitChildren_loop X c path cs i children =
     (if i < 16 then
        (case slot cs i of
           NilNode \<Rightarrow> commitChildren_loop X c path cs (i + 1) children
         | HashNode hn \<Rightarrow> commitChildren_loop X c path cs (i + 1) (children[i := HashNode hn])
         | child \<Rightarrow>
             (case commit X c (path @ [of_nat i]) child of
                Inl e \<Rightarrow> Inl e
              | Inr (r, c') \<Rightarrow> commitChildren_loop X c' path cs (i + 1) (children[i := r])))
      else
        Inr (if slot cs 16 \<noteq> NilNode then children[16 := slot cs 16] else children, c))"
  by pat_completeness auto


termination
  apply (relation "measures
      [\<lambda>x. case x of Inl (X, c, p, n) \<Rightarrow> 2 * size n
                   | Inr (X, c, p, cs, i, ch) \<Rightarrow> 2 * size_list size cs + 1,
       \<lambda>x. case x of Inl _ \<Rightarrow> 0 | Inr (X, c, p, cs, i, ch) \<Rightarrow> 17 - i]")
         apply simp_all
    apply (drule size_slot_less, simp)+
  done

declare commit.simps [simp del]
declare commitChildren_loop.simps [simp del]

text \<open>
  \<open>commitChildren\<close>, lines 127-151: the array \<open>children\<close> starts with 17 nil slots.
\<close>

definition commitChildren ::
  "externals \<Rightarrow> 'w committer \<Rightarrow> bytes \<Rightarrow> node list \<Rightarrow> fault + (node list \<times> 'w committer)" where
  "commitChildren X c path cs = commitChildren_loop X c path cs 0 (replicate 17 NilNode)"

text \<open>\<open>Commit\<close>, lines 78-80: \<open>c.commit(nil, n).(hashNode)\<close>.\<close>

definition Commit ::
  "externals \<Rightarrow> 'w committer \<Rightarrow> node \<Rightarrow> fault + (bytes \<times> 'w committer)" where
  "Commit X c n =
     (case commit X c [] n of
        Inl e \<Rightarrow> Inl e
      | Inr (r, c') \<Rightarrow> (case r of HashNode h \<Rightarrow> Inr (h, c') | _ \<Rightarrow> Inl (TypeAssertion r)))"

text \<open>
  \<open>commitLoop\<close>, lines 196-220. The worker receives the messages of the channel in
  the order they were sent. It writes \<open>Leaves\<close> only and the walk, once the channel
  is in use, writes \<open>Nodes\<close> only, so the worker's effect is that of receiving the
  whole sequence of messages after the walk. The value the callback returns is
  dropped, as in the source.
\<close>

fun commitLoop_range ::
  "'w committer \<Rightarrow> leafInfo list \<Rightarrow> 'w \<Rightarrow> fault + ('w committer \<times> 'w)" where
  "commitLoop_range c [] w = Inr (c, w)"
| "commitLoop_range c ((n, parent) # items) w =
     (case onleaf c of
        None \<Rightarrow> commitLoop_range c items w
      | Some cb \<Rightarrow>
          (case n of
             ShortNode k v f \<Rightarrow>
               (case v of
                  ValueNode child \<Rightarrow>
                    commitLoop_range (c\<lparr>nodes := AddLeaf parent child (nodes c)\<rparr>) items
                      (snd (cb child parent w))
                | _ \<Rightarrow> commitLoop_range c items w)
           | FullNode cs f \<Rightarrow>
               (if slot cs 16 \<noteq> NilNode then
                  (case slot cs 16 of
                     ValueNode child \<Rightarrow>
                       commitLoop_range (c\<lparr>nodes := AddLeaf parent child (nodes c)\<rparr>) items
                         (snd (cb child parent w))
                   | other \<Rightarrow> Inl (TypeAssertion other))
                else commitLoop_range c items w)
           | _ \<Rightarrow> commitLoop_range c items w))"

definition commitLoop :: "'w committer \<Rightarrow> 'w \<Rightarrow> fault + ('w committer \<times> 'w)" where
  "commitLoop c w =
     (case leafCh c of
        None \<Rightarrow> Inl NilChannel
      | Some items \<Rightarrow> commitLoop_range (c\<lparr>leafCh := Some []\<rparr>) items w)"


subsection \<open>Auxiliary notions\<close>

text \<open>
  The step shared by the shortNode and the fullNode branch of \<open>commit\<close>: store the
  collapsed node and return the hash if \<open>store\<close> returned one, the collapsed node
  otherwise (lines 103-107 and 113-117).
\<close>

definition storeCollapsed ::
  "externals \<Rightarrow> 'w committer \<Rightarrow> bytes \<Rightarrow> node \<Rightarrow> fault + (node \<times> 'w committer)" where
  "storeCollapsed X c path collapsed =
     (case store X c path collapsed of
        Inl e \<Rightarrow> Inl e
      | Inr (hashedNode, c2) \<Rightarrow>
          (case hashedNode of
             HashNode hn \<Rightarrow> Inr (HashNode hn, c2)
           | _ \<Rightarrow> Inr (collapsed, c2)))"

text \<open>
  The invariant of the node model that the 16 branch slots of a fullNode never hold
  a valueNode, here for a whole tree.
\<close>

lemma size_slot_le: "size (slot cs i) \<le> size_list size cs"
proof (cases "i < length cs")
  case True
  from size_nth_less [OF this] show ?thesis using True by (simp add: slot_def)
next
  case False
  then show ?thesis by (simp add: slot_def)
qed

fun isValueNode :: "node \<Rightarrow> bool" where
  "isValueNode (ValueNode v) = True"
| "isValueNode _ = False"

function validBranches :: "node \<Rightarrow> bool" where
  "validBranches (ShortNode k v f) = validBranches v"
| "validBranches (FullNode cs f) =
     (\<forall>i \<in> set [0..<16]. \<not> isValueNode (slot cs i) \<and> validBranches (slot cs i))"
| "validBranches NilNode = True"
| "validBranches (HashNode h) = True"
| "validBranches (ValueNode v) = True"
  by pat_completeness auto
termination
proof (relation "measure size", goal_cases)
  case 1
  show ?case by simp
next
  case (2 k v f)
  show ?case by simp
next
  case (3 cs f i)
  show ?case using size_slot_le [of cs i] by simp
qed

definition branchOK :: "node \<Rightarrow> bool" where
  "branchOK child = (\<not> isValueNode child \<and> validBranches child)"

subsection \<open>The children of a fullNode, after the specification\<close>

text \<open>
  The specification's account of a fullNode: the 16 branch slots are taken in
  ascending index order; an absent child is skipped, a hash reference is kept, any
  other child is committed at the path extended by the slot index; the 17th slot
  is carried through unchanged.
\<close>

definition spec_commitSlot ::
  "externals \<Rightarrow> 'w committer \<Rightarrow> bytes \<Rightarrow> nat \<Rightarrow> node \<Rightarrow> fault + (node \<times> 'w committer)" where
  "spec_commitSlot X c path i child =
     (case child of
        NilNode \<Rightarrow> Inr (NilNode, c)
      | HashNode h \<Rightarrow> Inr (HashNode h, c)
      | _ \<Rightarrow> commit X c (path @ [of_nat i]) child)"

fun spec_commitSlots ::
  "externals \<Rightarrow> 'w committer \<Rightarrow> bytes \<Rightarrow> nat \<Rightarrow> node list
     \<Rightarrow> fault + (node list \<times> 'w committer)" where
  "spec_commitSlots X c path i [] = Inr ([], c)"
| "spec_commitSlots X c path i (child # rest) =
     (case spec_commitSlot X c path i child of
        Inl e \<Rightarrow> Inl e
      | Inr (r, c1) \<Rightarrow>
          (case spec_commitSlots X c1 path (i + 1) rest of
             Inl e \<Rightarrow> Inl e
           | Inr (rs, c2) \<Rightarrow> Inr (r # rs, c2)))"

definition spec_commitChildren ::
  "externals \<Rightarrow> 'w committer \<Rightarrow> bytes \<Rightarrow> node list \<Rightarrow> fault + (node list \<times> 'w committer)" where
  "spec_commitChildren X c path cs =
     (case spec_commitSlots X c path 0 (map (slot cs) [0..<16]) of
        Inl e \<Rightarrow> Inl e
      | Inr (rs, c') \<Rightarrow> Inr (rs @ [slot cs 16], c'))"


text \<open>
  The invariant of the loop of \<open>commitChildren\<close>: the array has 17 slots and the
  slots not yet visited are nil.
\<close>

definition loopInv :: "nat \<Rightarrow> node list \<Rightarrow> bool" where
  "loopInv i children = (length children = 17 \<and> (\<forall>j. i \<le> j \<and> j < 17 \<longrightarrow> children ! j = NilNode))"

subsection \<open>The size estimate\<close>

text \<open>
  \<open>estimateSize\<close>, lines 253-276. Go's \<open>int\<close> is an integer here: the sum of the
  lengths of slices held in memory stays far below \<open>2^63\<close>. The default branch
  of the switch is reached by the nil node only.
\<close>

function (sequential)
  estimateSize :: "node \<Rightarrow> fault + int"
  and estimateSize_loop :: "node list \<Rightarrow> nat \<Rightarrow> int \<Rightarrow> fault + int"
where
  "estimateSize n =
     (case n of
        ShortNode k v f \<Rightarrow>
          (case estimateSize v of
             Inl e \<Rightarrow> Inl e
           | Inr t \<Rightarrow> Inr (3 + int (length k) + t))
      | FullNode cs f \<Rightarrow> estimateSize_loop cs 0 3
      | ValueNode v \<Rightarrow> Inr (1 + int (length v))
      | HashNode h \<Rightarrow> Inr (1 + int (length h))
      | NilNode \<Rightarrow> Inl (NodeType n))"
| "estimateSize_loop cs i s =
     (if i < 16 then
        (case slot cs i of
           NilNode \<Rightarrow> estimateSize_loop cs (i + 1) (s + 1)
         | child \<Rightarrow>
             (case estimateSize child of
                Inl e \<Rightarrow> Inl e
              | Inr t \<Rightarrow> estimateSize_loop cs (i + 1) (s + t)))
      else Inr s)"
  by pat_completeness auto
termination
  apply (relation "measures
      [\<lambda>x. case x of Inl n \<Rightarrow> 2 * size n | Inr (cs, i, s) \<Rightarrow> 2 * size_list size cs + 1,
       \<lambda>x. case x of Inl _ \<Rightarrow> 0 | Inr (cs, i, s) \<Rightarrow> 17 - i]")
         apply simp_all
     apply (drule size_slot_less, simp)+
  done

declare estimateSize.simps [simp del]
declare estimateSize_loop.simps [simp del]

subsection \<open>The child resolver\<close>

text \<open>
  \<open>forGatherChildren\<close>, lines 233-247, and \<open>ForEach\<close>, lines 227-229. The callback
  \<open>onChild\<close> acts on a state of the caller. The default branch of the switch has no
  counterpart: the five cases are all the values a \<open>node\<close> has.
\<close>

function (sequential)
  forGatherChildren :: "externals \<Rightarrow> node \<Rightarrow> (bytes \<Rightarrow> 's \<Rightarrow> 's) \<Rightarrow> 's \<Rightarrow> 's"
  and forGatherChildren_loop ::
    "externals \<Rightarrow> node list \<Rightarrow> nat \<Rightarrow> (bytes \<Rightarrow> 's \<Rightarrow> 's) \<Rightarrow> 's \<Rightarrow> 's"
where
  "forGatherChildren X n onChild s =
     (case n of
        ShortNode k v f \<Rightarrow> forGatherChildren X v onChild s
      | FullNode cs f \<Rightarrow> forGatherChildren_loop X cs 0 onChild s
      | HashNode h \<Rightarrow> onChild (BytesToHash X h) s
      | ValueNode v \<Rightarrow> s
      | NilNode \<Rightarrow> s)"
| "forGatherChildren_loop X cs i onChild s =
     (if i < 16 then
        forGatherChildren_loop X cs (i + 1) onChild (forGatherChildren X (slot cs i) onChild s)
      else s)"
  by pat_completeness auto
termination
  apply (relation "measures
      [\<lambda>x. case x of Inl (X, n, f, s) \<Rightarrow> 2 * size n
                   | Inr (X, cs, i, f, s) \<Rightarrow> 2 * size_list size cs + 1,
       \<lambda>x. case x of Inl _ \<Rightarrow> 0 | Inr (X, cs, i, f, s) \<Rightarrow> 17 - i]")
      apply simp_all
  subgoal for cs i using size_slot_le [of cs i] by simp
  done

declare forGatherChildren.simps [simp del]
declare forGatherChildren_loop.simps [simp del]

definition ForEach ::
  "externals \<Rightarrow> bytes \<Rightarrow> (bytes \<Rightarrow> 's \<Rightarrow> 's) \<Rightarrow> 's \<Rightarrow> fault + 's" where
  "ForEach X node onChild s =
     (case mustDecodeNodeUnsafe X node of
        Inl e \<Rightarrow> Inl e
      | Inr n \<Rightarrow> Inr (forGatherChildren X n onChild s))"


text \<open>
  The hash references found anywhere in a node, in slot order, and the shape of a
  decoded node: the slots of a fullNode past the 16 branches hold a value or
  nothing.
\<close>

fun hashRefs :: "node \<Rightarrow> bytes list" where
  "hashRefs (HashNode h) = [h]"
| "hashRefs (ShortNode k v f) = hashRefs v"
| "hashRefs (FullNode cs f) = concat (map hashRefs cs)"
| "hashRefs (ValueNode v) = []"
| "hashRefs NilNode = []"

fun terminalSlots :: "node \<Rightarrow> bool" where
  "terminalSlots (ShortNode k v f) = terminalSlots v"
| "terminalSlots (FullNode cs f) =
     ((\<forall>child \<in> set cs. terminalSlots child)
      \<and> (\<forall>child \<in> set (drop 16 cs). child = NilNode \<or> isValueNode child))"
| "terminalSlots _ = True"

subsection \<open>The leaf pipeline\<close>

text \<open>
  Modelled from the spec: the owner of the leaf channel (the caller of \<open>Commit\<close>,
  not part of the sources). The worker runs until the channel is closed by the
  owner after the top-level commit completes; closing and draining happen before
  the Node Set is returned to the caller. Without a channel there is no worker.
\<close>

definition commitAndDrain ::
  "externals \<Rightarrow> 'w committer \<Rightarrow> node \<Rightarrow> 'w \<Rightarrow> fault + (bytes \<times> 'w committer \<times> 'w)" where
  "commitAndDrain X c n w =
     (case Commit X c n of
        Inl e \<Rightarrow> Inl e
      | Inr (h, c1) \<Rightarrow>
          (case leafCh c1 of
             None \<Rightarrow> Inr (h, c1, w)
           | Some items \<Rightarrow>
               (case commitLoop c1 w of
                  Inl e \<Rightarrow> Inl e
                | Inr (c2, w') \<Rightarrow> Inr (h, c2, w'))))"


text \<open>
  What the worker records for a message when a callback is set: the value of a
  shortNode, or the 17th slot of a fullNode. A message is safe for the worker when
  its type assertion \<open>n.Children[16].(valueNode)\<close> cannot fail. \<open>notify\<close> is the
  effect of the callback on the caller's state; what the callback returns is not
  part of it.
\<close>

fun leafOf :: "leafInfo \<Rightarrow> (bytes \<times> bytes) list" where
  "leafOf (ShortNode k (ValueNode v) f, parent) = [(parent, v)]"
| "leafOf (FullNode cs f, parent) = (case slot cs 16 of ValueNode v \<Rightarrow> [(parent, v)] | _ \<Rightarrow> [])"
| "leafOf _ = []"

fun workerSafe :: "leafInfo \<Rightarrow> bool" where
  "workerSafe (FullNode cs f, parent) = (slot cs 16 = NilNode \<or> isValueNode (slot cs 16))"
| "workerSafe _ = True"

definition notify :: "'w LeafCallback \<Rightarrow> (bytes \<times> bytes) list \<Rightarrow> 'w \<Rightarrow> 'w" where
  "notify cb leaves w = fold (\<lambda>(parent, blob) w. snd (cb blob parent w)) leaves w"




text \<open>
  Hypotheses of the properties below, as predicates: the estimates of the present
  branch children of a fullNode; an encoder that gives the bytes of a node to no
  other node.
\<close>

definition childSizes :: "node list \<Rightarrow> (nat \<Rightarrow> int) \<Rightarrow> bool" where
  "childSizes cs sz =
     (\<forall>j<16. slot cs j \<noteq> NilNode \<longrightarrow> estimateSize (slot cs j) = Inr (sz j))"


subsection \<open>The committer on a heap\<close>

text \<open>
  For the effect of \<open>commit\<close> on the nodes it is given, shortNodes and fullNodes are
  objects in a heap and a \<open>node\<close> value is nil, a pointer to one of them, or a
  hashNode or valueNode, which are byte slices. An address is an index into the
  list of the objects of its type, so a pointer has the type of its target. Byte
  slices are values: no statement of \<open>commit\<close>, \<open>commitChildren\<close> or \<open>store\<close>
  assigns to an element of a slice.
\<close>

datatype ref = RNil | RShort nat | RFull nat | RHash bytes | RValue bytes

record shortNode =
  Key :: bytes
  Val :: ref
  sflags :: nodeFlag

record fullNode =
  Children :: "ref list"
  fflags :: nodeFlag

record heap =
  shorts :: "shortNode list"
  fulls :: "fullNode list"


text \<open>
  A call aborts when it panics, when it reads an address that holds no object, or
  when the recursion is cut off: the node graph of a heap may be cyclic, and the
  recursion is bounded by fuel.
\<close>

datatype abort = OutOfFuel | BadAddress | Panic fault

datatype 'a outcome = Aborts abort | Returns 'a

definition getShort :: "heap \<Rightarrow> nat \<Rightarrow> shortNode outcome" where
  "getShort h a = (if a < length (shorts h) then Returns (shorts h ! a) else Aborts BadAddress)"

definition getFull :: "heap \<Rightarrow> nat \<Rightarrow> fullNode outcome" where
  "getFull h a = (if a < length (fulls h) then Returns (fulls h ! a) else Aborts BadAddress)"

definition slotH :: "ref list \<Rightarrow> nat \<Rightarrow> ref" where
  "slotH cs i = (if i < length cs then cs ! i else RNil)"

definition putShort :: "heap \<Rightarrow> nat \<Rightarrow> shortNode \<Rightarrow> heap" where
  "putShort h a x = h\<lparr>shorts := (shorts h)[a := x]\<rparr>"

definition putFull :: "heap \<Rightarrow> nat \<Rightarrow> fullNode \<Rightarrow> heap" where
  "putFull h a x = h\<lparr>fulls := (fulls h)[a := x]\<rparr>"


text \<open>
  Modelled from the spec: the method \<open>copy\<close> of shortNode and fullNode (node.go, not
  part of the sources). The collapse is done on a copy: a new object with the
  fields of the old one.
\<close>

definition newShort :: "heap \<Rightarrow> shortNode \<Rightarrow> nat \<times> heap" where
  "newShort h x = (length (shorts h), h\<lparr>shorts := shorts h @ [x]\<rparr>)"

definition newFull :: "heap \<Rightarrow> fullNode \<Rightarrow> nat \<times> heap" where
  "newFull h x = (length (fulls h), h\<lparr>fulls := fulls h @ [x]\<rparr>)"


text \<open>
  \<open>cache\<close>, \<open>store\<close> and \<open>commit\<close> as above, reading the nodes from the heap. The
  encoder reads the heap as well. \<open>store\<close> writes to the committer only.
\<close>

definition cacheH :: "heap \<Rightarrow> ref \<Rightarrow> (bytes option \<times> bool) outcome" where
  "cacheH h n =
     (case n of
        RNil \<Rightarrow> Aborts (Panic NilDereference)
      | RShort a \<Rightarrow>
          (case getShort h a of
             Aborts e \<Rightarrow> Aborts e
           | Returns x \<Rightarrow> Returns (hash (sflags x), dirty (sflags x)))
      | RFull a \<Rightarrow>
          (case getFull h a of
             Aborts e \<Rightarrow> Aborts e
           | Returns x \<Rightarrow> Returns (hash (fflags x), dirty (fflags x)))
      | RHash hn \<Rightarrow> Returns (None, True)
      | RValue v \<Rightarrow> Returns (None, True))"

record hexternals =
  hexToCompactH :: "bytes \<Rightarrow> bytes"
  nodeToBytesH :: "heap \<Rightarrow> ref \<Rightarrow> bytes"
  BytesToHashH :: "bytes \<Rightarrow> bytes"

record hcommitter =
  nodesH :: NodeSet
  tracerH :: "bytes \<rightharpoonup> bytes"
  leafChH :: "(ref \<times> bytes) list option"

definition leafValue :: "heap \<Rightarrow> ref \<Rightarrow> bytes option" where
  "leafValue h n =
     (case n of
        RShort a \<Rightarrow>
          (case getShort h a of
             Returns x \<Rightarrow> (case Val x of RValue val \<Rightarrow> Some val | _ \<Rightarrow> None)
           | Aborts e \<Rightarrow> None)
      | _ \<Rightarrow> None)"

definition storeH ::
  "hexternals \<Rightarrow> heap \<Rightarrow> hcommitter \<Rightarrow> bytes \<Rightarrow> ref \<Rightarrow> (ref \<times> hcommitter) outcome" where
  "storeH X h c path n =
     (case cacheH h n of
        Aborts e \<Rightarrow> Aborts e
      | Returns (hsh, _) \<Rightarrow>
          (case hsh of
             None \<Rightarrow>
               (case tracerH c path of
                  Some _ \<Rightarrow> Returns (n, c\<lparr>nodesH := AddNode path Deleted (nodesH c)\<rparr>)
                | None \<Rightarrow> Returns (n, c))
           | Some hn \<Rightarrow>
               (let nhash = BytesToHashH X hn;
                    c1 = c\<lparr>nodesH := AddNode path (Written nhash (nodeToBytesH X h n)) (nodesH c)\<rparr>
                in case leafChH c1 of
                     Some q \<Rightarrow> Returns (RHash hn, c1\<lparr>leafChH := Some (q @ [(n, nhash)])\<rparr>)
                   | None \<Rightarrow>
                       (case leafValue h n of
                          Some val \<Rightarrow> Returns (RHash hn, c1\<lparr>nodesH := AddLeaf nhash val (nodesH c1)\<rparr>)
                        | None \<Rightarrow> Returns (RHash hn, c1)))))"

definition storeCollapsedH ::
  "hexternals \<Rightarrow> heap \<Rightarrow> hcommitter \<Rightarrow> bytes \<Rightarrow> ref \<Rightarrow> (ref \<times> heap \<times> hcommitter) outcome" where
  "storeCollapsedH X h c path collapsed =
     (case storeH X h c path collapsed of
        Aborts e \<Rightarrow> Aborts e
      | Returns (hashedNode, c') \<Rightarrow>
          (case hashedNode of
             RHash hn \<Rightarrow> Returns (RHash hn, h, c')
           | _ \<Rightarrow> Returns (collapsed, h, c')))"

function (sequential)
  commitH ::
    "nat \<Rightarrow> hexternals \<Rightarrow> heap \<Rightarrow> hcommitter \<Rightarrow> bytes \<Rightarrow> ref
       \<Rightarrow> (ref \<times> heap \<times> hcommitter) outcome"
  and commitChildrenH ::
    "nat \<Rightarrow> hexternals \<Rightarrow> heap \<Rightarrow> hcommitter \<Rightarrow> bytes \<Rightarrow> nat \<Rightarrow> nat \<Rightarrow> ref list
       \<Rightarrow> (ref list \<times> heap \<times> hcommitter) outcome"
where
  "commitH 0 X h c path n = Aborts OutOfFuel"
| "commitH (Suc fuel) X h c path n =
     (case cacheH h n of
        Aborts e \<Rightarrow> Aborts e
      | Returns (hsh, drt) \<Rightarrow>
          if hsh \<noteq> None \<and> \<not> drt then Returns (RHash (the hsh), h, c)
          else
            (case n of
               RShort cn \<Rightarrow>
                 (case getShort h cn of
                    Aborts e \<Rightarrow> Aborts e
                  | Returns x \<Rightarrow>
                      (case newShort h x of
                         (collapsed, h1) \<Rightarrow>
                           (case (case Val x of
                                    RFull b \<Rightarrow>
                                      (case commitH fuel X h1 c (path @ Key x) (Val x) of
                                         Aborts e \<Rightarrow> Aborts e
                                       | Returns (r, h2, c2) \<Rightarrow>
                                           (case getShort h2 collapsed of
                                              Aborts e \<Rightarrow> Aborts e
                                            | Returns y \<Rightarrow>
                                                Returns (putShort h2 collapsed (y\<lparr>Val := r\<rparr>), c2)))
                                  | _ \<Rightarrow> Returns (h1, c)) of
                              Aborts e \<Rightarrow> Aborts e
                            | Returns (h3, c3) \<Rightarrow>
                                (case getShort h3 cn of
                                   Aborts e \<Rightarrow> Aborts e
                                 | Returns x' \<Rightarrow>
                                     (case getShort h3 collapsed of
                                        Aborts e \<Rightarrow> Aborts e
                                      | Returns y \<Rightarrow>
                                          storeCollapsedH X
                                            (putShort h3 collapsed
                                               (y\<lparr>Key := hexToCompactH X (Key x')\<rparr>))
                                            c3 path (RShort collapsed))))))
             | RFull cn \<Rightarrow>
                 (case commitChildrenH fuel X h c path cn 0 (replicate 17 RNil) of
                    Aborts e \<Rightarrow> Aborts e
                  | Returns (hashedKids, h1, c1) \<Rightarrow>
                      (case getFull h1 cn of
                         Aborts e \<Rightarrow> Aborts e
                       | Returns x \<Rightarrow>
                           (case newFull h1 x of
                              (collapsed, h2) \<Rightarrow>
                                storeCollapsedH X
                                  (putFull h2 collapsed (x\<lparr>Children := hashedKids\<rparr>))
                                  c1 path (RFull collapsed))))
             | RHash hn \<Rightarrow> Returns (RHash hn, h, c)
             | RValue v \<Rightarrow> Aborts (Panic (InvalidNode (ValueNode v)))
             | RNil \<Rightarrow> Aborts (Panic (InvalidNode NilNode))))"
| "commitChildrenH fuel X h c path n i children =
     (if i < 16 then
        (case getFull h n of
           Aborts e \<Rightarrow> Aborts e
         | Returns x \<Rightarrow>
             (case slotH (Children x) i of
                RNil \<Rightarrow> commitChildrenH fuel X h c path n (i + 1) children
              | RHash hn \<Rightarrow> commitChildrenH fuel X h c path n (i + 1) (children[i := RHash hn])
              | child \<Rightarrow>
                  (case commitH fuel X h c (path @ [of_nat i]) child of
                     Aborts e \<Rightarrow> Aborts e
                   | Returns (r, h', c') \<Rightarrow>
                       commitChildrenH fuel X h' c' path n (i + 1) (children[i := r]))))
      else
        (case getFull h n of
           Aborts e \<Rightarrow> Aborts e
         | Returns x \<Rightarrow>
             Returns (if slotH (Children x) 16 \<noteq> RNil
                      then children[16 := slotH (Children x) 16]
                      else children, h, c)))"
  by pat_completeness auto
termination
  by (relation "measures
      [\<lambda>x. case x of Inl (fuel, X, h, c, p, n) \<Rightarrow> 2 * fuel
                   | Inr (fuel, X, h, c, p, n, i, ch) \<Rightarrow> 2 * fuel + 1,
       \<lambda>x. case x of Inl _ \<Rightarrow> 0 | Inr (fuel, X, h, c, p, n, i, ch) \<Rightarrow> 17 - i]") simp_all


declare commitH.simps [simp del]
declare commitChildrenH.simps [simp del]


text \<open>
  Every object of the first heap is in the second, at its address and with its
  fields; and a pointer that is not an address of the heap.
\<close>

definition unchanged :: "heap \<Rightarrow> heap \<Rightarrow> bool" where
  "unchanged h h' =
     (take (length (shorts h)) (shorts h') = shorts h
      \<and> take (length (fulls h)) (fulls h') = fulls h)"

definition freshRef :: "heap \<Rightarrow> ref \<Rightarrow> bool" where
  "freshRef h r =
     (case r of
        RShort a \<Rightarrow> length (shorts h) \<le> a
      | RFull a \<Rightarrow> length (fulls h) \<le> a
      | _ \<Rightarrow> True)"

subsection \<open>Sample instances\<close>

text \<open>A concrete choice of the collaborators and an empty committer, for the examples.\<close>


definition sampleX :: externals where
  "sampleX =
     \<lparr>hexToCompact = (\<lambda>k. 0 # k),
      nodeToBytes = (\<lambda>n. [1, 2]),
      BytesToHash = (\<lambda>h. take 32 h),
      mustDecodeNodeUnsafe = (\<lambda>b. if b = [] then Inl DecodeFailure else Inr (HashNode b))\<rparr>"

definition emptyCommitter :: "'w committer" where
  "emptyCommitter = \<lparr>nodes = \<lparr>Nodes = Map.empty, Leaves = []\<rparr>, tracer = Map.empty, onleaf = None, leafCh = None\<rparr>"


definition sampleChildren :: "node list" where
  "sampleChildren =
     [NilNode, HashNode [4], ShortNode [5] (ValueNode [7]) \<lparr>hash = Some [9], dirty = True\<rparr>,
      ShortNode [6] (ValueNode [8]) \<lparr>hash = None, dirty = True\<rparr>,
      NilNode, NilNode, NilNode, NilNode, NilNode, NilNode, NilNode, NilNode, NilNode, NilNode,
      NilNode, NilNode, ValueNode [3]]"

definition sampleSizes :: "nat \<Rightarrow> int" where
  "sampleSizes j = (if j = 1 then 2 else 6)"

definition sampleTree :: node where
  "sampleTree =
     FullNode
       [NilNode, HashNode [4],
        ShortNode [5]
          (FullNode (HashNode [6] # replicate 15 NilNode @ [ValueNode [3]])
             \<lparr>hash = None, dirty = False\<rparr>)
          \<lparr>hash = None, dirty = False\<rparr>,
        ShortNode [6] (ValueNode [8]) \<lparr>hash = None, dirty = False\<rparr>,
        NilNode, NilNode, NilNode, NilNode, NilNode, NilNode, NilNode, NilNode, NilNode, NilNode,
        NilNode, NilNode, ValueNode [3]]
       \<lparr>hash = None, dirty = False\<rparr>"

definition sampleDecoder :: externals where
  "sampleDecoder =
     sampleX\<lparr>mustDecodeNodeUnsafe :=
       (\<lambda>b. if b = [] then Inl DecodeFailure else Inr sampleTree)\<rparr>"

definition failingCallback :: "(bytes \<times> bytes) list LeafCallback" where
  "failingCallback blob parent w = (Some ''leaf callback failed'', w @ [(parent, blob)])"

definition quietCallback :: "(bytes \<times> bytes) list LeafCallback" where
  "quietCallback blob parent w = (None, w @ [(parent, blob)])"

definition sampleLeaf :: node where
  "sampleLeaf = ShortNode [1] (ValueNode [7]) \<lparr>hash = Some [9], dirty = True\<rparr>"

definition leafEncoder :: externals where
  "leafEncoder =
     sampleX\<lparr>nodeToBytes :=
       (\<lambda>n. if n = ShortNode [0, 1] (ValueNode [7]) \<lparr>hash = Some [9], dirty = True\<rparr>
             then [1] else [2])\<rparr>"

definition sampleQueue :: "leafInfo list" where
  "sampleQueue =
     [(ShortNode [0, 1] (ValueNode [7]) \<lparr>hash = Some [9], dirty = True\<rparr>, [9]),
      (FullNode (replicate 16 NilNode @ [ValueNode [3]]) \<lparr>hash = Some [8], dirty = True\<rparr>, [8]),
      (ShortNode [0, 2] (HashNode [5]) \<lparr>hash = Some [6], dirty = True\<rparr>, [6])]"

definition sampleHeap :: heap where
  "sampleHeap =
     \<lparr>shorts =
        [\<lparr>Key = [1], Val = RFull 0, sflags = \<lparr>hash = Some [9], dirty = True\<rparr>\<rparr>,
         \<lparr>Key = [2], Val = RValue [7], sflags = \<lparr>hash = None, dirty = True\<rparr>\<rparr>],
      fulls =
        [\<lparr>Children = [RNil, RShort 1, RHash [4]] @ replicate 13 RNil @ [RValue [3]],
          fflags = \<lparr>hash = Some [8], dirty = True\<rparr>\<rparr>]\<rparr>"

definition sampleXH :: hexternals where
  "sampleXH =
     \<lparr>hexToCompactH = (\<lambda>k. 0 # k), nodeToBytesH = (\<lambda>h n. [1, 2]), BytesToHashH = (\<lambda>h. take 32 h)\<rparr>"

definition emptyCommitterH :: hcommitter where
  "emptyCommitterH = \<lparr>nodesH = \<lparr>Nodes = Map.empty, Leaves = []\<rparr>, tracerH = Map.empty, leafChH = None\<rparr>"

definition committedHeap :: heap where
  "committedHeap =
     \<lparr>shorts =
        [\<lparr>Key = [1], Val = RFull 0, sflags = \<lparr>hash = Some [9], dirty = True\<rparr>\<rparr>,
         \<lparr>Key = [2], Val = RValue [7], sflags = \<lparr>hash = None, dirty = True\<rparr>\<rparr>,
         \<lparr>Key = [0, 1], Val = RHash [8], sflags = \<lparr>hash = Some [9], dirty = True\<rparr>\<rparr>,
         \<lparr>Key = [0, 2], Val = RValue [7], sflags = \<lparr>hash = None, dirty = True\<rparr>\<rparr>],
      fulls =
        [\<lparr>Children = [RNil, RShort 1, RHash [4]] @ replicate 13 RNil @ [RValue [3]],
          fflags = \<lparr>hash = Some [8], dirty = True\<rparr>\<rparr>,
         \<lparr>Children = [RNil, RShort 3, RHash [4]] @ replicate 13 RNil @ [RValue [3]],
          fflags = \<lparr>hash = Some [8], dirty = True\<rparr>\<rparr>]\<rparr>"

definition committedNodes :: hcommitter where
  "committedNodes =
     emptyCommitterH\<lparr>nodesH :=
       \<lparr>Nodes = [[1] \<mapsto> Written [8] [1, 2], [] \<mapsto> Written [9] [1, 2]], Leaves = []\<rparr>\<rparr>"

section \<open>Properties\<close>

subsection \<open>Basic facts about store and commit\<close>

lemma validBranches_FullNode:
  "validBranches (FullNode cs f) = (\<forall>j<16. \<not> isValueNode (slot cs j) \<and> validBranches (slot cs j))"
  by auto

lemma store_hashed:
  "cache n = Inr (Some h, d) \<Longrightarrow> \<exists>c'. store X c path n = Inr (HashNode h, c')"
  by (auto simp: store_def Let_def split: option.splits node.splits)

lemma store_embedded:
  "cache n = Inr (None, d) \<Longrightarrow> \<exists>c'. store X c path n = Inr (n, c')"
  by (auto simp: store_def split: option.splits)

lemma storeCollapsed_hashed:
  assumes "cache n = Inr (Some h, d)"
  shows "\<exists>c'. storeCollapsed X c path n = Inr (HashNode h, c')"
proof -
  from store_hashed [OF assms] obtain c' where "store X c path n = Inr (HashNode h, c')"
    by blast
  then show ?thesis by (simp add: storeCollapsed_def)
qed

lemma storeCollapsed_embedded:
  assumes "cache n = Inr (None, d)"
  shows "\<exists>c'. storeCollapsed X c path n = Inr (n, c')"
proof -
  from store_embedded [OF assms] obtain c' where "store X c path n = Inr (n, c')"
    by blast
  with assms show ?thesis by (cases n) (simp_all add: storeCollapsed_def)
qed

lemma commit_clean:
  "cache n = Inr (Some h, False) \<Longrightarrow> commit X c path n = Inr (HashNode h, c)"
  by (simp add: commit.simps)

lemma commit_HashNode: "commit X c path (HashNode h) = Inr (HashNode h, c)"
  by (simp add: commit.simps)

lemma commit_ValueNode: "commit X c path (ValueNode v) = Inl (InvalidNode (ValueNode v))"
  by (simp add: commit.simps)


lemma commit_ShortNode:
  "hash f = None \<or> dirty f \<Longrightarrow>
   commit X c path (ShortNode k v f) =
     (case (case v of FullNode cs' f' \<Rightarrow> commit X c (path @ k) v | _ \<Rightarrow> Inr (v, c)) of
        Inl e \<Rightarrow> Inl e
      | Inr (v', c1) \<Rightarrow> storeCollapsed X c1 path (ShortNode (hexToCompact X k) v' f))"
  by (subst commit.simps) (auto simp: storeCollapsed_def split: sum.splits)

lemma commit_FullNode:
  "hash f = None \<or> dirty f \<Longrightarrow>
   commit X c path (FullNode cs f) =
     (case commitChildren X c path cs of
        Inl e \<Rightarrow> Inl e
      | Inr (hashedKids, c1) \<Rightarrow> storeCollapsed X c1 path (FullNode hashedKids f))"
  by (subst commit.simps) (auto simp: storeCollapsed_def commitChildren_def split: sum.splits)

lemma commit_cached_result:
  assumes "cache n = Inr (Some h, d)" and "commit X (c :: 'w committer) path n = Inr (r, c')"
  shows "r = HashNode h"
proof (cases d)
  case False
  with assms show ?thesis by (simp add: commit.simps)
next
  case True
  show ?thesis
  proof (cases n)
    case (ShortNode k v f)
    with assms True have hf: "hash f = Some h" "dirty f" by simp_all
    have st: "\<exists>c2. storeCollapsed X c1 path (ShortNode (hexToCompact X k) v' f) = Inr (HashNode h, c2)"
      for v' and c1 :: "'w committer"
      using hf by (intro storeCollapsed_hashed [where d = True]) simp
    from assms(2) ShortNode hf obtain v' c1 where
      "storeCollapsed X c1 path (ShortNode (hexToCompact X k) v' f) = Inr (r, c')"
      by (auto simp: commit_ShortNode split: sum.splits)
    with st [of c1 v'] show ?thesis by auto
  next
    case (FullNode cs f)
    with assms True have hf: "hash f = Some h" "dirty f" by simp_all
    have st: "\<exists>c2. storeCollapsed X c1 path (FullNode kids f) = Inr (HashNode h, c2)"
      for kids and c1 :: "'w committer"
      using hf by (intro storeCollapsed_hashed [where d = True]) simp
    from assms(2) FullNode hf obtain kids c1 where
      "storeCollapsed X c1 path (FullNode kids f) = Inr (r, c')"
      by (auto simp: commit_FullNode split: sum.splits)
    with st [of c1 kids] show ?thesis by auto
  qed (use assms in simp_all)
qed

lemma storeCollapsed_total:
  assumes "n \<noteq> NilNode"
  shows "\<exists>r c'. storeCollapsed X c path n = Inr (r, c')"
proof -
  from assms obtain h d where "cache n = Inr (h, d)" by (cases n) auto
  then show ?thesis
    using storeCollapsed_hashed [of n _ d X c path] storeCollapsed_embedded [of n d X c path]
    by (cases h) auto
qed

lemma commitChildren_loop_step:
  "i < 16 \<Longrightarrow> commitChildren_loop X c path cs i children =
     (case slot cs i of
        NilNode \<Rightarrow> commitChildren_loop X c path cs (i + 1) children
      | HashNode hn \<Rightarrow> commitChildren_loop X c path cs (i + 1) (children[i := HashNode hn])
      | child \<Rightarrow>
          (case commit X c (path @ [of_nat i]) child of
             Inl e \<Rightarrow> Inl e
           | Inr (r, c') \<Rightarrow> commitChildren_loop X c' path cs (i + 1) (children[i := r])))"
  by (subst commitChildren_loop.simps) simp

lemma commitChildren_loop_end:
  "\<not> i < 16 \<Longrightarrow> commitChildren_loop X c path cs i children =
     Inr (if slot cs 16 \<noteq> NilNode then children[16 := slot cs 16] else children, c)"
  by (subst commitChildren_loop.simps) simp

lemma commit_returns_aux:
  "validBranches n \<longrightarrow> n \<noteq> NilNode \<longrightarrow> (\<forall>v. n \<noteq> ValueNode v) \<longrightarrow>
     (\<exists>r c'. commit X (c :: 'w committer) path n = Inr (r, c'))"
  "(\<forall>j. i \<le> j \<and> j < 16 \<longrightarrow> branchOK (slot cs j)) \<longrightarrow>
     (\<exists>r c'. commitChildren_loop X (c :: 'w committer) path cs i children = Inr (r, c'))"
proof (induction X c path n and X c path cs i children rule: commit_commitChildren_loop.induct)
  case (1 X c path n)
  show ?case
  proof (intro impI)
    assume vb: "validBranches n" and nn: "n \<noteq> NilNode" and nv: "\<forall>v. n \<noteq> ValueNode v"
    show "\<exists>r c'. commit X c path n = Inr (r, c')"
    proof (cases n)
      case (ShortNode k v f)
      show ?thesis
      proof (cases "hash f = None \<or> dirty f")
        case False
        then obtain h where "cache n = Inr (Some h, False)" using ShortNode by auto
        then show ?thesis by (simp add: commit_clean)
      next
        case True
        have inner: "\<exists>v' c1. (case v of FullNode cs' f' \<Rightarrow> commit X c (path @ k) v | _ \<Rightarrow> Inr (v, c))
            = Inr (v', c1)"
        proof (cases v)
          case (FullNode cs' f')
          have "\<exists>r c'. commit X c (path @ k) v = Inr (r, c')"
            using "1.IH"(1) [of "(hash f, dirty f)" "hash f" "dirty f" k v f cs' f']
              ShortNode FullNode True vb by auto
          then show ?thesis using FullNode by simp
        qed simp_all
        then obtain v' c1 where
          "(case v of FullNode cs' f' \<Rightarrow> commit X c (path @ k) v | _ \<Rightarrow> Inr (v, c)) = Inr (v', c1)"
          by blast
        then show ?thesis
          using storeCollapsed_total [of "ShortNode (hexToCompact X k) v' f" X c1 path] True
          by (simp add: ShortNode commit_ShortNode)
      qed
    next
      case (FullNode cs f)
      show ?thesis
      proof (cases "hash f = None \<or> dirty f")
        case False
        then obtain h where "cache n = Inr (Some h, False)" using FullNode by auto
        then show ?thesis by (simp add: commit_clean)
      next
        case True
        have "\<forall>j. 0 \<le> j \<and> j < 16 \<longrightarrow> branchOK (slot cs j)"
          using vb unfolding FullNode validBranches_FullNode branchOK_def by simp
        then have "\<exists>r c'. commitChildren_loop X c path cs 0 (replicate 17 NilNode) = Inr (r, c')"
          using "1.IH"(2) [of "(hash f, dirty f)" "hash f" "dirty f" cs f] FullNode True by auto
        then obtain kids c1 where "commitChildren X c path cs = Inr (kids, c1)"
          by (auto simp: commitChildren_def)
        then show ?thesis
          using storeCollapsed_total [of "FullNode kids f" X c1 path] True
          by (simp add: FullNode commit_FullNode)
      qed
    qed (use nn nv in \<open>simp_all add: commit_HashNode\<close>)
  qed
next
  case (2 X c path cs i children)
  show ?case
  proof (intro impI)
    assume ok: "\<forall>j. i \<le> j \<and> j < 16 \<longrightarrow> branchOK (slot cs j)"
    then have ok': "\<forall>j. i + 1 \<le> j \<and> j < 16 \<longrightarrow> branchOK (slot cs j)" by auto
    show "\<exists>r c'. commitChildren_loop X c path cs i children = Inr (r, c')"
    proof (cases "i < 16")
      case False
      then show ?thesis by (simp add: commitChildren_loop_end)
    next
      case True
      with ok have bi: "branchOK (slot cs i)" by auto
      show ?thesis
      proof (cases "slot cs i")
        case NilNode
        with "2.IH"(1) True ok' show ?thesis by (simp add: commitChildren_loop_step)
      next
        case (ShortNode k v f)
        with bi have "validBranches (ShortNode k v f)" unfolding branchOK_def by simp
        with "2.IH"(2) [OF True ShortNode] obtain r c1 where
          cm: "commit X c (path @ [of_nat i]) (ShortNode k v f) = Inr (r, c1)" by auto
        from "2.IH"(3) [OF True ShortNode cm] ok' show ?thesis
          using True ShortNode cm by (simp add: commitChildren_loop_step)
      next
        case (FullNode cs' f)
        with bi have "validBranches (FullNode cs' f)" unfolding branchOK_def by simp
        with "2.IH"(4) [OF True FullNode] obtain r c1 where
          cm: "commit X c (path @ [of_nat i]) (FullNode cs' f) = Inr (r, c1)" by auto
        from "2.IH"(5) [OF True FullNode cm] ok' show ?thesis
          using True FullNode cm by (simp add: commitChildren_loop_step)
      next
        case (HashNode h)
        with "2.IH"(6) True ok' show ?thesis by (simp add: commitChildren_loop_step)
      next
        case (ValueNode v)
        with bi show ?thesis by (simp add: branchOK_def)
      qed
    qed
  qed
qed

lemma commit_returns:
  assumes "validBranches n" and "n \<noteq> NilNode" and "\<not> isValueNode n"
  shows "\<exists>r c'. commit X c path n = Inr (r, c')"
proof -
  from assms(3) have "\<forall>v. n \<noteq> ValueNode v" by auto
  with commit_returns_aux(1) [of n X c path] assms(1,2) show ?thesis by blast
qed

lemma commit_uncached_result:
  assumes "cache n = Inr (None, d)" and "commit X (c :: 'w committer) path n = Inr (r, c')"
    and "\<forall>g. n \<noteq> HashNode g"
  shows "\<forall>g. r \<noteq> HashNode g"
proof (cases n)
  case (ShortNode k v f)
  with assms have hf: "hash f = None" by simp
  have st: "\<exists>c2. storeCollapsed X c1 path (ShortNode (hexToCompact X k) v' f)
      = Inr (ShortNode (hexToCompact X k) v' f, c2)" for v' and c1 :: "'w committer"
    using hf by (intro storeCollapsed_embedded [where d = "dirty f"]) simp
  from assms(2) ShortNode hf obtain v' c1 where
    "storeCollapsed X c1 path (ShortNode (hexToCompact X k) v' f) = Inr (r, c')"
    by (auto simp: commit_ShortNode split: sum.splits)
  with st [of c1 v'] show ?thesis by auto
next
  case (FullNode cs f)
  with assms have hf: "hash f = None" by simp
  have st: "\<exists>c2. storeCollapsed X c1 path (FullNode kids f) = Inr (FullNode kids f, c2)"
    for kids and c1 :: "'w committer"
    using hf by (intro storeCollapsed_embedded [where d = "dirty f"]) simp
  from assms(2) FullNode hf obtain kids c1 where
    "storeCollapsed X c1 path (FullNode kids f) = Inr (r, c')"
    by (auto simp: commit_FullNode split: sum.splits)
  with st [of c1 kids] show ?thesis by auto
qed (use assms in \<open>simp_all add: commit_ValueNode\<close>)

subsection \<open>The store step\<close>

text \<open>
  C1. For every node passed to the store step: when its cached hash is absent, the
  node itself is returned and the committer changes exactly by a \<open>Deleted\<close>
  tombstone at the path if the access list contains the path, and not at all
  otherwise; when its cached hash is present, the hash is returned and the node
  set holds at the path a \<open>Written\<close> entry with the digest of that hash and the
  encoded bytes of the node, every other path being as before.
\<close>

theorem store_step:
  "(cache n = Inr (None, d) \<longrightarrow>
      store X c path n =
        Inr (n, if path \<in> dom (tracer c) then c\<lparr>nodes := AddNode path Deleted (nodes c)\<rparr> else c))
   \<and> (cache n = Inr (Some h, d) \<longrightarrow>
      (\<exists>c'. store X c path n = Inr (HashNode h, c')
          \<and> Nodes (nodes c') = (Nodes (nodes c))(path \<mapsto> Written (BytesToHash X h) (nodeToBytes X n))
          \<and> tracer c' = tracer c))"
  by (auto simp: store_def AddNode_def AddLeaf_def Let_def split: option.splits node.splits)

theorem store_step_witness:
  "cache (ShortNode [1] (ValueNode [7]) \<lparr>hash = None, dirty = True\<rparr>) = Inr (None, True)
   \<and> store sampleX ((emptyCommitter :: unit committer)\<lparr>tracer := [[5] \<mapsto> []]\<rparr>) [5]
        (ShortNode [1] (ValueNode [7]) \<lparr>hash = None, dirty = True\<rparr>)
      = Inr (ShortNode [1] (ValueNode [7]) \<lparr>hash = None, dirty = True\<rparr>,
             emptyCommitter\<lparr>tracer := [[5] \<mapsto> []],
               nodes := AddNode [5] Deleted (nodes emptyCommitter)\<rparr>)
   \<and> cache (ShortNode [1] (ValueNode [7]) \<lparr>hash = Some [9], dirty = True\<rparr>) = Inr (Some [9], True)
   \<and> (\<exists>c'. store sampleX (emptyCommitter :: unit committer) [5]
          (ShortNode [1] (ValueNode [7]) \<lparr>hash = Some [9], dirty = True\<rparr>) = Inr (HashNode [9], c')
        \<and> Nodes (nodes c') [5] = Some (Written [9] [1, 2]))"
  using store_step [where n = "ShortNode [1] (ValueNode [7]) \<lparr>hash = None, dirty = True\<rparr>"
      and d = True and X = sampleX and c = "emptyCommitter\<lparr>tracer := [[5] \<mapsto> []]\<rparr>" and path = "[5]"]
    store_step [where n = "ShortNode [1] (ValueNode [7]) \<lparr>hash = Some [9], dirty = True\<rparr>"
      and d = True and h = "[9]" and X = sampleX and c = "emptyCommitter :: unit committer"
      and path = "[5]"]
  by (auto simp: sampleX_def emptyCommitter_def)

subsection \<open>Clean nodes\<close>

text \<open>
  C3. A node whose cache carries a hash and whose dirty flag is false is answered
  with that hash at once: whatever its children are, \<open>commit\<close> returns the hash and
  the committer (node set, leaf channel) is unchanged, and so does \<open>Commit\<close>. The
  digest is the one any commit of a tree with the same cached root hash returns,
  and committing the returned hash reference again is the identity.
\<close>

theorem commit_clean_idempotent:
  assumes "cache n = Inr (Some h, False)"
  shows "commit X c path n = Inr (HashNode h, c)
       \<and> Commit X c n = Inr (h, c)
       \<and> (cache m = Inr (Some h, dm) \<longrightarrow> Commit X c0 m = Inr (g, c1) \<longrightarrow>
            g = h \<and> Commit X c (HashNode g) = Inr (g, c))"
proof -
  have a: "commit X c p n = Inr (HashNode h, c)" for p
    using assms by (rule commit_clean)
  have b: "Commit X c n = Inr (h, c)"
    by (simp add: Commit_def a)
  have d: "g = h" if "cache m = Inr (Some h, dm)" and "Commit X c0 m = Inr (g, c1)"
  proof -
    from that(2) obtain r where r: "commit X c0 [] m = Inr (r, c1)" and "r = HashNode g"
      by (auto simp: Commit_def split: sum.splits node.splits)
    with commit_cached_result [OF that(1) r] show ?thesis by simp
  qed
  have e: "Commit X c (HashNode g) = Inr (g, c)"
    by (simp add: Commit_def commit_HashNode)
  from a b d e show ?thesis by blast
qed

theorem commit_clean_idempotent_witness:
  "cache (FullNode [ValueNode [1]] \<lparr>hash = Some [9], dirty = False\<rparr>) = Inr (Some [9], False)
   \<and> commit sampleX (emptyCommitter :: unit committer) [3]
        (FullNode [ValueNode [1]] \<lparr>hash = Some [9], dirty = False\<rparr>)
       = Inr (HashNode [9], emptyCommitter)
   \<and> Commit sampleX (emptyCommitter :: unit committer)
        (FullNode [ValueNode [1]] \<lparr>hash = Some [9], dirty = False\<rparr>) = Inr ([9], emptyCommitter)
   \<and> Commit sampleX (emptyCommitter :: unit committer)
        (ShortNode [1] (ValueNode [7]) \<lparr>hash = Some [9], dirty = True\<rparr>)
       = Inr ([9], emptyCommitter\<lparr>nodes := \<lparr>Nodes = [[] \<mapsto> Written [9] [1, 2]], Leaves = [([9], [7])]\<rparr>\<rparr>)
   \<and> Commit sampleX (emptyCommitter :: unit committer) (HashNode [9]) = Inr ([9], emptyCommitter)"
proof -
  let ?n = "FullNode [ValueNode [1]] \<lparr>hash = Some [9], dirty = False\<rparr>"
  let ?m = "ShortNode [1] (ValueNode [7]) \<lparr>hash = Some [9], dirty = True\<rparr>"
  let ?c1 = "(emptyCommitter :: unit committer)\<lparr>nodes := \<lparr>Nodes = [[] \<mapsto> Written [9] [1, 2]], Leaves = [([9], [7])]\<rparr>\<rparr>"
  have hn: "cache ?n = Inr (Some [9], False)" by simp
  have hm: "cache ?m = Inr (Some [9], True)" by simp
  have run: "Commit sampleX (emptyCommitter :: unit committer) ?m = Inr ([9], ?c1)"
    by (simp add: Commit_def commit.simps store_def sampleX_def emptyCommitter_def AddNode_def
        AddLeaf_def Let_def)
  from commit_clean_idempotent [OF hn, of sampleX "emptyCommitter :: unit committer" "[3]" ?m True
      "emptyCommitter :: unit committer" "[9]" ?c1] hn hm run
  show ?thesis by simp
qed

subsection \<open>The root\<close>

text \<open>
  C4, as amended. A shortNode or fullNode root that carries a cached hash, in a tree
  whose branch slots hold no valueNode, commits to that cached hash; a hashNode root
  commits to itself, the committer unchanged. A root without a cached hash that is
  not a hashNode makes \<open>Commit\<close> panic: the collapse of a shortNode or fullNode
  yields the embedded node, and the conversion to a hashNode fails.
\<close>

theorem Commit_cached_root:
  "(validBranches n \<and> cache n = Inr (Some h, d) \<longrightarrow> (\<exists>c'. Commit X c n = Inr (h, c')))
   \<and> Commit X c (HashNode g) = Inr (g, c)
   \<and> (cache n = Inr (None, d) \<and> (\<forall>g'. n \<noteq> HashNode g') \<longrightarrow> (\<exists>e. Commit X c n = Inl e))"
proof (intro conjI impI)
  assume a: "validBranches n \<and> cache n = Inr (Some h, d)"
  then have "n \<noteq> NilNode" "\<not> isValueNode n" by (cases n; simp)+
  with a commit_returns [of n X c "[]"] obtain r c' where r: "commit X c [] n = Inr (r, c')"
    by blast
  from a commit_cached_result [OF _ r] have "r = HashNode h" by blast
  with r show "\<exists>c'. Commit X c n = Inr (h, c')" by (simp add: Commit_def)
next
  show "Commit X c (HashNode g) = Inr (g, c)" by (simp add: Commit_def commit_HashNode)
next
  assume a: "cache n = Inr (None, d) \<and> (\<forall>g'. n \<noteq> HashNode g')"
  show "\<exists>e. Commit X c n = Inl e"
  proof (cases "commit X c [] n")
    case (Inl e)
    then show ?thesis by (simp add: Commit_def)
  next
    case (Inr b)
    then obtain r c' where r: "commit X c [] n = Inr (r, c')" by (cases b) simp
    from a commit_uncached_result [OF _ r] have "\<forall>g. r \<noteq> HashNode g" by blast
    with r show ?thesis by (cases r) (simp_all add: Commit_def)
  qed
qed

theorem Commit_cached_root_witness:
  "validBranches (FullNode [NilNode, ShortNode [2] (ValueNode [7]) \<lparr>hash = None, dirty = True\<rparr>]
        \<lparr>hash = Some [9], dirty = True\<rparr>)
   \<and> (\<exists>c'. Commit sampleX (emptyCommitter :: unit committer)
        (FullNode [NilNode, ShortNode [2] (ValueNode [7]) \<lparr>hash = None, dirty = True\<rparr>]
           \<lparr>hash = Some [9], dirty = True\<rparr>) = Inr ([9], c'))
   \<and> (\<exists>e. Commit sampleX (emptyCommitter :: unit committer)
         (ShortNode [2] (ValueNode [7]) \<lparr>hash = None, dirty = True\<rparr>) = Inl e)"
proof -
  let ?s = "ShortNode [2] (ValueNode [7]) \<lparr>hash = None, dirty = True\<rparr>"
  let ?n = "FullNode [NilNode, ?s] \<lparr>hash = Some [9], dirty = True\<rparr>"
  have v: "validBranches ?n" by code_simp
  have h: "cache ?n = Inr (Some [9], True)" by simp
  have h': "cache ?s = Inr (None, True)" by simp
  from Commit_cached_root [of ?n "[9]" True sampleX "emptyCommitter :: unit committer" "[]"] v h
    Commit_cached_root [of ?s "[]" True sampleX "emptyCommitter :: unit committer" "[]"] h'
  show ?thesis by simp
qed

text \<open>
  C4 as stated fails: a shortNode root without a cached hash is a legal root, its
  collapse is the embedded shortNode, and the type assertion of \<open>Commit\<close> panics.
\<close>

theorem Commit_embedded_root_counterexample:
  "Commit sampleX (emptyCommitter :: unit committer)
     (ShortNode [1] (ValueNode [7]) \<lparr>hash = None, dirty = True\<rparr>)
   = Inl (TypeAssertion (ShortNode [0, 1] (ValueNode [7]) \<lparr>hash = None, dirty = True\<rparr>))"
  by (simp add: Commit_def commit.simps store_def sampleX_def emptyCommitter_def)

subsection \<open>Invalid nodes\<close>

text \<open>
  C6, as amended. On a bare valueNode \<open>commit\<close> panics with the invalid-node
  diagnostic, which carries the node (its variant and its value) and nothing else;
  on the nil node it panics as well. Neither fault depends on the path or on the
  committer.
\<close>

theorem commit_invalid_node:
  "commit X c path (ValueNode v) = Inl (InvalidNode (ValueNode v))
   \<and> commit X c path NilNode = Inl NilDereference"
  by (simp add: commit.simps)

text \<open>
  C6 as stated fails: the diagnostic does not identify the path. The same valueNode
  at two different paths gives the same fault.
\<close>

theorem commit_invalid_node_counterexample:
  "commit sampleX (emptyCommitter :: unit committer) [1] (ValueNode [7])
     = Inl (InvalidNode (ValueNode [7]))
   \<and> commit sampleX (emptyCommitter :: unit committer) [2] (ValueNode [7])
     = Inl (InvalidNode (ValueNode [7]))"
  by (simp add: commit.simps)

subsection \<open>The children of a fullNode\<close>

lemma loopInv_update:
  "loopInv i children \<Longrightarrow> i < 16 \<Longrightarrow> loopInv (Suc i) (children[i := r])"
  by (auto simp: loopInv_def)

lemma loopInv_skip: "loopInv i children \<Longrightarrow> loopInv (Suc i) children"
  by (auto simp: loopInv_def)

lemma take_Suc_update:
  "i < length children \<Longrightarrow> take (Suc i) (children[i := r]) = take i children @ [r]"
  by (simp add: take_Suc_conv_app_nth)

lemma take_Suc_nil:
  "loopInv i children \<Longrightarrow> i < 16 \<Longrightarrow> take (Suc i) children = take i children @ [NilNode]"
  by (simp add: take_Suc_conv_app_nth loopInv_def)

lemma loop_last:
  assumes "loopInv 16 children"
  shows "(if slot cs 16 \<noteq> NilNode then children[16 := slot cs 16] else children)
       = take 16 children @ [slot cs 16]"
proof -
  from assms have len: "length children = 17" and l: "children ! 16 = NilNode"
    by (auto simp: loopInv_def)
  have "children[16 := x] = take 16 children @ [x]" for x
    using len by (simp add: upd_conv_take_nth_drop)
  moreover from this [of NilNode] l have "children = take 16 children @ [NilNode]"
    by (metis list_update_id)
  ultimately show ?thesis by auto
qed

lemma commitChildren_loop_refines:
  assumes "i \<le> 16"
  shows "loopInv i children \<Longrightarrow>
    commitChildren_loop X c path cs i children =
      (case spec_commitSlots X c path i (map (slot cs) [i..<16]) of
         Inl e \<Rightarrow> Inl e
       | Inr (rs, c') \<Rightarrow> Inr (take i children @ rs @ [slot cs 16], c'))"
  using assms
proof (induction i arbitrary: c children rule: inc_induct)
  case base
  then show ?case by (simp add: commitChildren_loop_end loop_last)
next
  case (step i)
  from step.hyps have i16: "i < 16" by simp
  have upt: "[i..<16] = i # [Suc i..<16]" using i16 by (simp add: upt_conv_Cons)
  have len: "i < length children" using step.prems i16 by (simp add: loopInv_def)
  show ?case
  proof (cases "slot cs i")
    case NilNode
    with step.IH [OF loopInv_skip [OF step.prems], of c] show ?thesis
      by (simp add: commitChildren_loop_step i16 upt spec_commitSlot_def
          take_Suc_nil [OF step.prems i16] split: sum.splits)
  next
    case (HashNode h)
    with step.IH [OF loopInv_update [OF step.prems i16, of "HashNode h"], of c] show ?thesis
      by (simp add: commitChildren_loop_step i16 upt spec_commitSlot_def
          take_Suc_update [OF len] split: sum.splits)
  next
    case (ShortNode k v f)
    show ?thesis
    proof (cases "commit X c (path @ [of_nat i]) (ShortNode k v f)")
      case (Inl e)
      with ShortNode show ?thesis
        by (simp add: commitChildren_loop_step i16 upt spec_commitSlot_def)
    next
      case (Inr b)
      obtain r c1 where b: "b = (r, c1)" by (cases b)
      with Inr ShortNode step.IH [OF loopInv_update [OF step.prems i16, of r], of c1] show ?thesis
        by (simp add: commitChildren_loop_step i16 upt spec_commitSlot_def
            take_Suc_update [OF len] split: sum.splits)
    qed
  next
    case (FullNode cs' f)
    show ?thesis
    proof (cases "commit X c (path @ [of_nat i]) (FullNode cs' f)")
      case (Inl e)
      with FullNode show ?thesis
        by (simp add: commitChildren_loop_step i16 upt spec_commitSlot_def)
    next
      case (Inr b)
      obtain r c1 where b: "b = (r, c1)" by (cases b)
      with Inr FullNode step.IH [OF loopInv_update [OF step.prems i16, of r], of c1] show ?thesis
        by (simp add: commitChildren_loop_step i16 upt spec_commitSlot_def
            take_Suc_update [OF len] split: sum.splits)
    qed
  next
    case (ValueNode v)
    show ?thesis
    proof (cases "commit X c (path @ [of_nat i]) (ValueNode v)")
      case (Inl e)
      with ValueNode show ?thesis
        by (simp add: commitChildren_loop_step i16 upt spec_commitSlot_def)
    next
      case (Inr b)
      obtain r c1 where b: "b = (r, c1)" by (cases b)
      with Inr ValueNode step.IH [OF loopInv_update [OF step.prems i16, of r], of c1] show ?thesis
        by (simp add: commitChildren_loop_step i16 upt spec_commitSlot_def
            take_Suc_update [OF len] split: sum.splits)
    qed
  qed
qed


text \<open>
  C5. \<open>commitChildren\<close> is the specification's walk over the slots: slots 0 to 15
  in ascending order, each nil child skipped, each hashNode kept, every other child
  committed at the path extended by its index, with the committer threaded from
  one slot to the next; the 17th slot is appended as it is, and the committer is
  the one left by slot 15. A fullNode that is not clean collapses to these
  children, which are then stored.
\<close>

theorem commitChildren_refines:
  "commitChildren X c path cs = spec_commitChildren X c path cs
   \<and> (hash f = None \<or> dirty f \<longrightarrow>
        commit X c path (FullNode cs f) =
          (case spec_commitChildren X c path cs of
             Inl e \<Rightarrow> Inl e
           | Inr (hashedKids, c1) \<Rightarrow> storeCollapsed X c1 path (FullNode hashedKids f)))"
proof -
  have "loopInv 0 (replicate 17 NilNode)" by (simp add: loopInv_def)
  from commitChildren_loop_refines [OF _ this, of X c path cs]
  have "commitChildren X c path cs = spec_commitChildren X c path cs"
    by (simp add: commitChildren_def spec_commitChildren_def split: sum.splits)
  then show ?thesis by (simp add: commit_FullNode)
qed

lemma spec_commitChildren_sample:
  "spec_commitChildren sampleX (emptyCommitter :: unit committer) [1] sampleChildren =
     Inr ([NilNode, HashNode [4], HashNode [9],
           ShortNode [0, 6] (ValueNode [8]) \<lparr>hash = None, dirty = True\<rparr>,
           NilNode, NilNode, NilNode, NilNode, NilNode, NilNode, NilNode, NilNode, NilNode,
           NilNode, NilNode, NilNode, ValueNode [3]],
          emptyCommitter\<lparr>nodes := \<lparr>Nodes = [[1, 2] \<mapsto> Written [9] [1, 2]],
            Leaves = [([9], [7])]\<rparr>\<rparr>)"
  by (simp add: spec_commitChildren_def spec_commitSlot_def slot_def upt_conv_Cons commit.simps
      store_def sampleX_def emptyCommitter_def sampleChildren_def AddNode_def AddLeaf_def Let_def)

theorem commitChildren_refines_witness:
  "(hash \<lparr>hash = None, dirty = True\<rparr> = None \<or> dirty \<lparr>hash = None, dirty = True\<rparr>)
   \<and> commitChildren sampleX (emptyCommitter :: unit committer) [1] sampleChildren =
     Inr ([NilNode, HashNode [4], HashNode [9],
           ShortNode [0, 6] (ValueNode [8]) \<lparr>hash = None, dirty = True\<rparr>,
           NilNode, NilNode, NilNode, NilNode, NilNode, NilNode, NilNode, NilNode, NilNode,
           NilNode, NilNode, NilNode, ValueNode [3]],
          emptyCommitter\<lparr>nodes := \<lparr>Nodes = [[1, 2] \<mapsto> Written [9] [1, 2]],
            Leaves = [([9], [7])]\<rparr>\<rparr>)
   \<and> commit sampleX (emptyCommitter :: unit committer) [1]
        (FullNode sampleChildren \<lparr>hash = None, dirty = True\<rparr>) =
     Inr (FullNode [NilNode, HashNode [4], HashNode [9],
           ShortNode [0, 6] (ValueNode [8]) \<lparr>hash = None, dirty = True\<rparr>,
           NilNode, NilNode, NilNode, NilNode, NilNode, NilNode, NilNode, NilNode, NilNode,
           NilNode, NilNode, NilNode, ValueNode [3]] \<lparr>hash = None, dirty = True\<rparr>,
          emptyCommitter\<lparr>nodes := \<lparr>Nodes = [[1, 2] \<mapsto> Written [9] [1, 2]],
            Leaves = [([9], [7])]\<rparr>\<rparr>)"
  using commitChildren_refines [of sampleX "emptyCommitter :: unit committer" "[1]" sampleChildren
      "\<lparr>hash = None, dirty = True\<rparr>"]
  by (simp add: spec_commitChildren_sample) (simp add: storeCollapsed_def store_def emptyCommitter_def)

subsection \<open>The size estimate\<close>

lemma estimateSize_loop_step:
  "i < 16 \<Longrightarrow> estimateSize_loop cs i s =
     (if slot cs i = NilNode then estimateSize_loop cs (i + 1) (s + 1)
      else (case estimateSize (slot cs i) of
              Inl e \<Rightarrow> Inl e
            | Inr t \<Rightarrow> estimateSize_loop cs (i + 1) (s + t)))"
  by (subst estimateSize_loop.simps) (simp split: node.splits)

lemma estimateSize_loop_end: "\<not> i < 16 \<Longrightarrow> estimateSize_loop cs i s = Inr s"
  by (subst estimateSize_loop.simps) simp

lemma estimateSize_loop_sum:
  assumes "i \<le> 16"
    and "\<forall>j. i \<le> j \<and> j < 16 \<and> slot cs j \<noteq> NilNode \<longrightarrow> estimateSize (slot cs j) = Inr (sz j)"
  shows "estimateSize_loop cs i s =
     Inr (s + (\<Sum>j = i..<16. if slot cs j = NilNode then 1 else sz j))"
  using assms
proof (induction i arbitrary: s rule: inc_induct)
  case base
  then show ?case by (simp add: estimateSize_loop_end)
next
  case (step i)
  from step.hyps have i16: "i < 16" by simp
  have rest: "\<forall>j. Suc i \<le> j \<and> j < 16 \<and> slot cs j \<noteq> NilNode \<longrightarrow> estimateSize (slot cs j) = Inr (sz j)"
    using step.prems by auto
  have here: "slot cs i \<noteq> NilNode \<Longrightarrow> estimateSize (slot cs i) = Inr (sz i)"
    using step.prems i16 by auto
  have split: "(\<Sum>j = i..<16. if slot cs j = NilNode then 1 else sz j)
      = (if slot cs i = NilNode then 1 else sz i)
        + (\<Sum>j = Suc i..<16. if slot cs j = NilNode then 1 else sz j)"
    using i16 by (simp add: sum.atLeast_Suc_lessThan)
  show ?case
    using step.IH [OF rest] here
    by (simp add: estimateSize_loop_step [OF i16] split)
qed

lemma estimateSize_loop_last_slot:
  assumes "i \<le> 16"
  shows "estimateSize_loop (cs[16 := x]) i s = estimateSize_loop cs i s"
  using assms
proof (induction i arbitrary: s rule: inc_induct)
  case base
  then show ?case by (simp add: estimateSize_loop_end)
next
  case (step i)
  from step.hyps have i16: "i < 16" by simp
  then have "slot (cs[16 := x]) i = slot cs i" by (simp add: slot_def)
  with step.IH show ?case
    by (simp add: estimateSize_loop_step [OF i16] split: sum.splits)
qed


text \<open>
  C9. \<open>estimateSize\<close> of a valueNode or hashNode is 1 plus its length; of a
  shortNode, 3 plus the key length plus the estimate of its value; of a fullNode,
  3 plus, over slots 0 to 15, the estimate of a present child or 1 for an absent
  one. The 17th slot contributes nothing: replacing it changes no estimate. The
  function takes no encoder.
\<close>

theorem estimateSize_rules:
  "estimateSize (ValueNode v) = Inr (1 + int (length v))
   \<and> estimateSize (HashNode h) = Inr (1 + int (length h))
   \<and> estimateSize (ShortNode k val f) =
       (case estimateSize val of Inl e \<Rightarrow> Inl e | Inr t \<Rightarrow> Inr (3 + int (length k) + t))
   \<and> (childSizes cs sz \<longrightarrow>
        estimateSize (FullNode cs f) =
          Inr (3 + (\<Sum>j = 0..<16. if slot cs j = NilNode then 1 else sz j)))
   \<and> estimateSize (FullNode (cs[16 := x]) f) = estimateSize (FullNode cs f)"
proof (intro conjI impI)
  assume "childSizes cs sz"
  then have a: "\<forall>j<16. slot cs j \<noteq> NilNode \<longrightarrow> estimateSize (slot cs j) = Inr (sz j)"
    by (simp add: childSizes_def)
  then have "\<forall>j. 0 \<le> j \<and> j < 16 \<and> slot cs j \<noteq> NilNode \<longrightarrow> estimateSize (slot cs j) = Inr (sz j)"
    by simp
  from estimateSize_loop_sum [OF _ this, of 3]
  show "estimateSize (FullNode cs f) =
      Inr (3 + (\<Sum>j = 0..<16. if slot cs j = NilNode then 1 else sz j))"
    by (simp add: estimateSize.simps)
next
  show "estimateSize (FullNode (cs[16 := x]) f) = estimateSize (FullNode cs f)"
    using estimateSize_loop_last_slot [of 0 cs x 3] by (simp add: estimateSize.simps)
qed (simp_all add: estimateSize.simps)

lemma sample_children_sizes: "childSizes sampleChildren sampleSizes"
  unfolding childSizes_def
  by (auto simp: slot_def sampleChildren_def nth_Cons' estimateSize.simps sampleSizes_def
      split: if_splits)

lemma sample_sum:
  "(\<Sum>j = 0..<16. if slot sampleChildren j = NilNode then 1 else sampleSizes j) = 27"
  by (simp add: sum.atLeast_Suc_lessThan slot_def sampleChildren_def sampleSizes_def)

theorem estimateSize_rules_witness:
  "childSizes sampleChildren sampleSizes
   \<and> estimateSize (FullNode sampleChildren \<lparr>hash = None, dirty = True\<rparr>) = Inr 30
   \<and> estimateSize (FullNode (sampleChildren[16 := NilNode]) \<lparr>hash = None, dirty = True\<rparr>) = Inr 30
   \<and> estimateSize (ShortNode [5] (ValueNode [7]) \<lparr>hash = None, dirty = True\<rparr>) = Inr 6"
  using estimateSize_rules [where k = "[5]" and val = "ValueNode [7]"
      and f = "\<lparr>hash = None, dirty = True\<rparr>" and cs = sampleChildren and sz = sampleSizes
      and x = NilNode and v = "[7]" and h = "[]"]
    sample_children_sizes
  by (simp add: sample_sum)

subsection \<open>The child resolver\<close>

lemma forGatherChildren_loop_step:
  "i < 16 \<Longrightarrow> forGatherChildren_loop X cs i onChild s =
     forGatherChildren_loop X cs (i + 1) onChild (forGatherChildren X (slot cs i) onChild s)"
  by (subst forGatherChildren_loop.simps) simp

lemma forGatherChildren_loop_end: "\<not> i < 16 \<Longrightarrow> forGatherChildren_loop X cs i onChild s = s"
  by (subst forGatherChildren_loop.simps) simp

lemma slots_take:
  "map (slot cs) [0..<n] = take n cs @ replicate (n - length cs) NilNode"
proof (induction n)
  case 0
  show ?case by simp
next
  case (Suc n)
  show ?case
  proof (cases "n < length cs")
    case True
    with Suc show ?thesis by (simp add: take_Suc_conv_app_nth slot_def)
  next
    case False
    then have "Suc n - length cs = Suc (n - length cs)" by simp
    with Suc False show ?thesis by (simp add: slot_def replicate_append_same)
  qed
qed

lemma hashRefs_replicate_nil: "concat (map hashRefs (replicate k NilNode)) = []"
  by (induction k) simp_all

lemma hashRefs_terminal:
  "\<forall>child \<in> set xs. child = NilNode \<or> isValueNode child \<Longrightarrow> concat (map hashRefs xs) = []"
proof (induction xs)
  case Nil
  show ?case by simp
next
  case (Cons x xs)
  then have "hashRefs x = []" by (cases x) auto
  with Cons show ?case by simp
qed

lemma hashRefs_branch_slots:
  assumes "\<forall>child \<in> set (drop 16 cs). child = NilNode \<or> isValueNode child"
  shows "concat (map hashRefs (map (slot cs) [0..<16])) = concat (map hashRefs cs)"
proof -
  have "concat (map hashRefs cs) = concat (map hashRefs (take 16 cs @ drop 16 cs))" by simp
  also have "\<dots> = concat (map hashRefs (take 16 cs))"
    using hashRefs_terminal [OF assms] by (simp del: append_take_drop_id)
  finally show ?thesis by (simp add: slots_take hashRefs_replicate_nil)
qed

lemma terminalSlots_slot:
  "terminalSlots (FullNode cs f) \<Longrightarrow> terminalSlots (slot cs j)"
  by (simp add: slot_def)

lemma forGatherChildren_aux:
  "terminalSlots n \<longrightarrow>
     forGatherChildren X n onChild s = fold (\<lambda>h. onChild (BytesToHash X h)) (hashRefs n) s"
  "(\<forall>j. terminalSlots (slot cs j)) \<longrightarrow>
     forGatherChildren_loop X cs i onChild s =
       fold (\<lambda>h. onChild (BytesToHash X h)) (concat (map hashRefs (map (slot cs) [i..<16]))) s"
proof (induction X n onChild s and X cs i onChild s
    rule: forGatherChildren_forGatherChildren_loop.induct)
  case (1 X n onChild s)
  show ?case
  proof (intro impI)
    assume t: "terminalSlots n"
    show "forGatherChildren X n onChild s
        = fold (\<lambda>h. onChild (BytesToHash X h)) (hashRefs n) s"
    proof (cases n)
      case (ShortNode k v f)
      with "1.IH"(1) [OF ShortNode] t show ?thesis
        by (simp add: forGatherChildren.simps [of X "ShortNode k v f"])
    next
      case (FullNode cs f)
      from t FullNode have "\<forall>j. terminalSlots (slot cs j)"
        using terminalSlots_slot by blast
      with "1.IH"(2) [OF FullNode] have
        "forGatherChildren_loop X cs 0 onChild s =
          fold (\<lambda>h. onChild (BytesToHash X h)) (concat (map hashRefs (map (slot cs) [0..<16]))) s"
        by blast
      moreover from t FullNode have
        "concat (map hashRefs (map (slot cs) [0..<16])) = concat (map hashRefs cs)"
        by (intro hashRefs_branch_slots) simp
      ultimately show ?thesis
        using FullNode by (simp add: forGatherChildren.simps [of X "FullNode cs f"])
    qed (simp_all add: forGatherChildren.simps)
  qed
next
  case (2 X cs i onChild s)
  show ?case
  proof (intro impI)
    assume t: "\<forall>j. terminalSlots (slot cs j)"
    show "forGatherChildren_loop X cs i onChild s =
        fold (\<lambda>h. onChild (BytesToHash X h)) (concat (map hashRefs (map (slot cs) [i..<16]))) s"
    proof (cases "i < 16")
      case False
      then show ?thesis by (simp add: forGatherChildren_loop_end)
    next
      case True
      then have upt: "[i..<16] = i # [Suc i..<16]" by (simp add: upt_conv_Cons)
      from "2.IH"(1) [OF True] t have
        a: "forGatherChildren X (slot cs i) onChild s
            = fold (\<lambda>h. onChild (BytesToHash X h)) (hashRefs (slot cs i)) s" by blast
      from "2.IH"(2) [OF True] t have
        b: "forGatherChildren_loop X cs (i + 1) onChild (forGatherChildren X (slot cs i) onChild s)
            = fold (\<lambda>h. onChild (BytesToHash X h))
                (concat (map hashRefs (map (slot cs) [i + 1..<16])))
                (forGatherChildren X (slot cs i) onChild s)" by blast
      show ?thesis
        unfolding forGatherChildren_loop_step [OF True] using b by (simp add: a upt)
    qed
  qed
qed

lemma forGatherChildren_loop_last_slot:
  assumes "i \<le> 16"
  shows "forGatherChildren_loop X (cs[16 := x]) i onChild s = forGatherChildren_loop X cs i onChild s"
  using assms
proof (induction i arbitrary: s rule: inc_induct)
  case base
  then show ?case by (simp add: forGatherChildren_loop_end)
next
  case (step i)
  from step.hyps have i16: "i < 16" by simp
  then have "slot (cs[16 := x]) i = slot cs i" by (simp add: slot_def)
  with step.IH show ?case by (simp add: forGatherChildren_loop_step [OF i16])
qed

lemma forGatherChildren_last_slot:
  "forGatherChildren X (FullNode (cs[16 := x]) f) onChild s
     = forGatherChildren X (FullNode cs f) onChild s"
  using forGatherChildren_loop_last_slot [of 0 X cs x onChild s]
  by (simp add: forGatherChildren.simps [of X "FullNode _ _"])

text \<open>
  C8. \<open>ForEach\<close> decodes the blob and applies the callback once to the digest of
  each hash reference of the decoded node, in slot order, including those inside
  embedded shortNodes and fullNodes; values and empty slots add nothing. When the
  blob does not decode, the result is the decoder's fault.
\<close>

theorem ForEach_hash_children:
  "(mustDecodeNodeUnsafe X blob = Inr n \<and> terminalSlots n \<longrightarrow>
      ForEach X blob onChild s = Inr (fold (\<lambda>h. onChild (BytesToHash X h)) (hashRefs n) s))
   \<and> (mustDecodeNodeUnsafe X blob = Inl e \<longrightarrow> ForEach X blob onChild s = Inl e)"
  using forGatherChildren_aux(1) [of n X onChild s] by (simp add: ForEach_def)

lemma terminalSlots_sampleTree: "terminalSlots sampleTree"
  by (simp add: sampleTree_def)

lemma hashRefs_sampleTree: "hashRefs sampleTree = [[4], [6]]"
  by (simp add: sampleTree_def)

theorem ForEach_hash_children_witness:
  "mustDecodeNodeUnsafe sampleDecoder [1] = Inr sampleTree \<and> terminalSlots sampleTree
   \<and> ForEach sampleDecoder [1] (\<lambda>h s. s @ [h]) [] = Inr [[4], [6]]
   \<and> mustDecodeNodeUnsafe sampleDecoder [] = Inl DecodeFailure
   \<and> ForEach sampleDecoder [] (\<lambda>h s. s @ [h]) ([] :: bytes list) = Inl DecodeFailure"
  using ForEach_hash_children [of sampleDecoder "[1]" sampleTree "\<lambda>h s. s @ [h]" "[]" DecodeFailure]
    ForEach_hash_children [of sampleDecoder "[]" sampleTree "\<lambda>h s. s @ [h]" "[]" DecodeFailure]
    terminalSlots_sampleTree
  by (simp add: hashRefs_sampleTree sampleDecoder_def sampleX_def)

subsection \<open>The leaf pipeline\<close>

lemma commitLoop_range_leaves:
  assumes "onleaf c = Some cb" and "\<forall>item \<in> set items. workerSafe item"
  shows "commitLoop_range c items w =
     Inr (c\<lparr>nodes := (nodes c)\<lparr>Leaves := Leaves (nodes c) @ concat (map leafOf items)\<rparr>\<rparr>,
          notify cb (concat (map leafOf items)) w)"
  using assms
proof (induction items arbitrary: c w)
  case Nil
  show ?case by (simp add: notify_def)
next
  case (Cons item items)
  obtain n parent where item: "item = (n, parent)" by (cases item)
  from Cons.prems have safe: "workerSafe (n, parent)" and rest: "\<forall>item \<in> set items. workerSafe item"
    by (simp_all add: item)
  have keep: "commitLoop_range c items w =
     Inr (c\<lparr>nodes := (nodes c)\<lparr>Leaves := Leaves (nodes c) @ concat (map leafOf items)\<rparr>\<rparr>,
          notify cb (concat (map leafOf items)) w)"
    using Cons.IH [OF Cons.prems(1) rest] .
  have add: "commitLoop_range (c\<lparr>nodes := AddLeaf parent child (nodes c)\<rparr>) items
        (snd (cb child parent w)) =
     Inr (c\<lparr>nodes := (nodes c)\<lparr>Leaves := Leaves (nodes c) @ (parent, child) # concat (map leafOf items)\<rparr>\<rparr>,
          notify cb ((parent, child) # concat (map leafOf items)) w)" for child
    using Cons.IH [of "c\<lparr>nodes := AddLeaf parent child (nodes c)\<rparr>" "snd (cb child parent w)"]
      Cons.prems(1) rest
    by (simp add: AddLeaf_def notify_def)
  show ?case
  proof (cases n)
    case (ShortNode k v f)
    then show ?thesis
      using keep add Cons.prems(1) by (cases v) (simp_all add: item)
  next
    case (FullNode cs f)
    with safe have "slot cs 16 = NilNode \<or> isValueNode (slot cs 16)" by simp
    then show ?thesis
      using keep add Cons.prems(1) FullNode by (cases "slot cs 16") (simp_all add: item)
  qed (use keep Cons.prems(1) in \<open>simp_all add: item\<close>)
qed






lemmas run_defs =
  commitAndDrain_def Commit_def commit.simps store_def commitLoop_def AddNode_def AddLeaf_def
  Let_def leafEncoder_def sampleX_def emptyCommitter_def sampleLeaf_def quietCallback_def
  failingCallback_def









text \<open>
  C7, as amended. With a callback set, the worker handles every message of the
  channel in order: each leaf is recorded in the Node Set and passed to the
  callback, whatever the callback returned for earlier leaves. The result carries
  the committer and the caller's state only; a failure reported by the callback
  appears in neither.
\<close>

theorem commitLoop_drops_failure:
  assumes "onleaf c = Some cb" and "leafCh c = Some items"
    and "list_all workerSafe items"
  shows "commitLoop c w =
     Inr (c\<lparr>leafCh := Some [],
            nodes := (nodes c)\<lparr>Leaves := Leaves (nodes c) @ concat (map leafOf items)\<rparr>\<rparr>,
          notify cb (concat (map leafOf items)) w)"
proof -
  from assms(1) have "onleaf (c\<lparr>leafCh := Some []\<rparr>) = Some cb" by simp
  moreover from assms(3) have "\<forall>item \<in> set items. workerSafe item"
    by (simp add: list_all_iff)
  ultimately show ?thesis
    using commitLoop_range_leaves [of "c\<lparr>leafCh := Some []\<rparr>" cb items w] assms(2)
    by (simp add: commitLoop_def)
qed

theorem commitLoop_drops_failure_witness:
  "onleaf (emptyCommitter\<lparr>onleaf := Some failingCallback, leafCh := Some sampleQueue\<rparr>)
     = Some failingCallback
   \<and> list_all workerSafe sampleQueue
   \<and> commitLoop (emptyCommitter\<lparr>onleaf := Some failingCallback, leafCh := Some sampleQueue\<rparr>) [] =
      Inr (emptyCommitter\<lparr>onleaf := Some failingCallback, leafCh := Some [],
             nodes := \<lparr>Nodes = Map.empty, Leaves = [([9], [7]), ([8], [3])]\<rparr>\<rparr>,
           [([9], [7]), ([8], [3])])"
proof -
  let ?c = "emptyCommitter\<lparr>onleaf := Some failingCallback, leafCh := Some sampleQueue\<rparr>"
  have a: "onleaf ?c = Some failingCallback" by simp
  have b: "leafCh ?c = Some sampleQueue" by simp
  have s: "list_all workerSafe sampleQueue" by (simp add: sampleQueue_def slot_def nth_append)
  have l: "concat (map leafOf sampleQueue) = [([9], [7]), ([8], [3])]"
    by (simp add: sampleQueue_def slot_def nth_append)
  from commitLoop_drops_failure [OF a b s, of "[]"] a s show ?thesis
    by (simp add: l notify_def failingCallback_def emptyCommitter_def)
qed


text \<open>
  C7 as stated fails: a callback that reports a failure for every leaf and one that
  reports none give the same digest, the same Node Set and the same calls; the
  failure is not part of the result.
\<close>

theorem callback_failure_counterexample:
  "commitAndDrain sampleX (emptyCommitter\<lparr>onleaf := Some failingCallback, leafCh := Some []\<rparr>)
     sampleLeaf [] =
   Inr ([9], emptyCommitter\<lparr>onleaf := Some failingCallback, leafCh := Some [],
          nodes := \<lparr>Nodes = [[] \<mapsto> Written [9] [1, 2]], Leaves = [([9], [7])]\<rparr>\<rparr>, [([9], [7])])
   \<and> commitAndDrain sampleX (emptyCommitter\<lparr>onleaf := Some quietCallback, leafCh := Some []\<rparr>)
     sampleLeaf [] =
   Inr ([9], emptyCommitter\<lparr>onleaf := Some quietCallback, leafCh := Some [],
          nodes := \<lparr>Nodes = [[] \<mapsto> Written [9] [1, 2]], Leaves = [([9], [7])]\<rparr>\<rparr>, [([9], [7])])"
  by (simp add: run_defs)

subsection \<open>The nodes given to commit\<close>

lemma take_prefix_iff: "take (length xs) ys = xs \<longleftrightarrow> (\<exists>zs. ys = xs @ zs)"
proof
  assume "take (length xs) ys = xs"
  then have "ys = xs @ drop (length xs) ys" by (metis append_take_drop_id)
  then show "\<exists>zs. ys = xs @ zs" ..
next
  assume "\<exists>zs. ys = xs @ zs"
  then show "take (length xs) ys = xs" by auto
qed

lemma unchanged_iff:
  "unchanged h h' \<longleftrightarrow> (\<exists>xs ys. shorts h' = shorts h @ xs \<and> fulls h' = fulls h @ ys)"
  by (simp add: unchanged_def take_prefix_iff)

lemma unchanged_refl: "unchanged h h"
  by (simp add: unchanged_def)

lemma unchanged_length:
  "unchanged h h' \<Longrightarrow> length (shorts h) \<le> length (shorts h') \<and> length (fulls h) \<le> length (fulls h')"
  by (auto simp: unchanged_iff)

lemma unchanged_trans: "unchanged h1 h2 \<Longrightarrow> unchanged h2 h3 \<Longrightarrow> unchanged h1 h3"
  by (auto simp: unchanged_iff)

lemma unchanged_newShort:
  "newShort h x = (a, h1) \<Longrightarrow> unchanged h h1 \<and> a = length (shorts h)"
  by (auto simp: newShort_def unchanged_def)

lemma unchanged_newFull:
  "newFull h x = (a, h1) \<Longrightarrow> unchanged h h1 \<and> a = length (fulls h)"
  by (auto simp: newFull_def unchanged_def)

lemma unchanged_putShort:
  "unchanged h0 h \<Longrightarrow> length (shorts h0) \<le> a \<Longrightarrow> unchanged h0 (putShort h a y)"
  by (simp add: unchanged_def putShort_def)

lemma unchanged_putFull:
  "unchanged h0 h \<Longrightarrow> length (fulls h0) \<le> a \<Longrightarrow> unchanged h0 (putFull h a y)"
  by (simp add: unchanged_def putFull_def)

lemma storeCollapsedH_heap:
  "storeCollapsedH X h c path n = Returns (r, h', c') \<Longrightarrow> h' = h"
  by (auto simp: storeCollapsedH_def split: outcome.splits prod.splits ref.splits)

lemma commitChildrenH_step:
  "i < 16 \<Longrightarrow> getFull h n = Returns x \<Longrightarrow>
   commitChildrenH fuel X h c path n i children =
     (case slotH (Children x) i of
        RNil \<Rightarrow> commitChildrenH fuel X h c path n (i + 1) children
      | RHash hn \<Rightarrow> commitChildrenH fuel X h c path n (i + 1) (children[i := RHash hn])
      | child \<Rightarrow>
          (case commitH fuel X h c (path @ [of_nat i]) child of
             Aborts e \<Rightarrow> Aborts e
           | Returns (r, h', c') \<Rightarrow>
               commitChildrenH fuel X h' c' path n (i + 1) (children[i := r])))"
  by (subst commitChildrenH.simps) simp

lemma commitChildrenH_end:
  "\<not> i < 16 \<Longrightarrow> commitChildrenH fuel X h c path n i children = Returns (rs, h', c') \<Longrightarrow> h' = h"
  by (subst (asm) commitChildrenH.simps) (auto split: outcome.splits)

lemma commitChildrenH_bad:
  "commitChildrenH fuel X h c path n i children = Returns res \<Longrightarrow> \<exists>x. getFull h n = Returns x"
  by (subst (asm) commitChildrenH.simps) (auto split: outcome.splits if_splits)

lemma commitH_dirty:
  assumes "cacheH h n = Returns (hsh, drt)" and "hsh = None \<or> drt"
  shows "commitH (Suc fuel) X h c path n =
     (case n of
               RShort cn \<Rightarrow>
                 (case getShort h cn of
                    Aborts e \<Rightarrow> Aborts e
                  | Returns x \<Rightarrow>
                      (case newShort h x of
                         (collapsed, h1) \<Rightarrow>
                           (case (case Val x of
                                    RFull b \<Rightarrow>
                                      (case commitH fuel X h1 c (path @ Key x) (Val x) of
                                         Aborts e \<Rightarrow> Aborts e
                                       | Returns (r, h2, c2) \<Rightarrow>
                                           (case getShort h2 collapsed of
                                              Aborts e \<Rightarrow> Aborts e
                                            | Returns y \<Rightarrow>
                                                Returns (putShort h2 collapsed (y\<lparr>Val := r\<rparr>), c2)))
                                  | _ \<Rightarrow> Returns (h1, c)) of
                              Aborts e \<Rightarrow> Aborts e
                            | Returns (h3, c3) \<Rightarrow>
                                (case getShort h3 cn of
                                   Aborts e \<Rightarrow> Aborts e
                                 | Returns x' \<Rightarrow>
                                     (case getShort h3 collapsed of
                                        Aborts e \<Rightarrow> Aborts e
                                      | Returns y \<Rightarrow>
                                          storeCollapsedH X
                                            (putShort h3 collapsed
                                               (y\<lparr>Key := hexToCompactH X (Key x')\<rparr>))
                                            c3 path (RShort collapsed))))))
             | RFull cn \<Rightarrow>
                 (case commitChildrenH fuel X h c path cn 0 (replicate 17 RNil) of
                    Aborts e \<Rightarrow> Aborts e
                  | Returns (hashedKids, h1, c1) \<Rightarrow>
                      (case getFull h1 cn of
                         Aborts e \<Rightarrow> Aborts e
                       | Returns x \<Rightarrow>
                           (case newFull h1 x of
                              (collapsed, h2) \<Rightarrow>
                                storeCollapsedH X
                                  (putFull h2 collapsed (x\<lparr>Children := hashedKids\<rparr>))
                                  c1 path (RFull collapsed))))
             | RHash hn \<Rightarrow> Returns (RHash hn, h, c)
             | RValue v \<Rightarrow> Aborts (Panic (InvalidNode (ValueNode v)))
             | RNil \<Rightarrow> Aborts (Panic (InvalidNode NilNode)))"
proof -
  from assms(2) have "\<not> (hsh \<noteq> None \<and> \<not> drt)" by auto
  then show ?thesis
    by (subst commitH.simps) (simp only: assms(1) outcome.case prod.case if_False)
qed

lemma commitH_frame_aux:
  "\<forall>r h' c'. commitH fuel X h c path n = Returns (r, h', c') \<longrightarrow> unchanged h h'"
  "\<forall>rs h' c'. commitChildrenH fuel X h c path a i children = Returns (rs, h', c')
      \<longrightarrow> unchanged h h'"
proof (induction fuel X h c path n and fuel X h c path a i children
    rule: commitH_commitChildrenH.induct)
  case (1 X h c path n)
  show ?case by (simp add: commitH.simps)
next
  case (2 fuel X h c path n)
  show ?case
  proof (intro allI impI)
    fix r h' c'
    assume run: "commitH (Suc fuel) X h c path n = Returns (r, h', c')"
    then obtain hsh drt where ca: "cacheH h n = Returns (hsh, drt)"
      by (auto simp: commitH.simps split: outcome.splits)
    show "unchanged h h'"
    proof (cases "hsh \<noteq> None \<and> \<not> drt")
      case True
      with run ca have "h' = h" by (simp add: commitH.simps)
      then show ?thesis by (simp add: unchanged_refl)
    next
      case False
      then have "hsh = None \<or> drt" by auto
      note run = run [unfolded commitH_dirty [OF ca this]]
      show ?thesis
      proof (cases n)
        case (RShort cn)
        from run ca False RShort obtain x where x: "getShort h cn = Returns x"
          by (auto split: outcome.splits)
        obtain col h1 where new: "newShort h x = (col, h1)" by (cases "newShort h x")
        from unchanged_newShort [OF new] have u1: "unchanged h h1" and col: "col = length (shorts h)"
          by simp_all
        let ?inner = "case Val x of
            RFull b \<Rightarrow>
              (case commitH fuel X h1 c (path @ Key x) (Val x) of
                 Aborts e \<Rightarrow> Aborts e
               | Returns (r, h2, c2) \<Rightarrow>
                   (case getShort h2 col of
                      Aborts e \<Rightarrow> Aborts e
                    | Returns y \<Rightarrow> Returns (putShort h2 col (y\<lparr>Val := r\<rparr>), c2)))
          | _ \<Rightarrow> Returns (h1, c)"
        have unfolded: "(case ?inner of
            Aborts e \<Rightarrow> Aborts e
          | Returns (h3, c3) \<Rightarrow>
              (case getShort h3 cn of
                 Aborts e \<Rightarrow> Aborts e
               | Returns x' \<Rightarrow>
                   (case getShort h3 col of
                      Aborts e \<Rightarrow> Aborts e
                    | Returns y \<Rightarrow>
                        storeCollapsedH X
                          (putShort h3 col (y\<lparr>Key := hexToCompactH X (Key x')\<rparr>))
                          c3 path (RShort col)))) = Returns (r, h', c')"
          using run RShort x new by simp
        then obtain h3 c3 where inner: "?inner = Returns (h3, c3)"
          and rest: "(case getShort h3 cn of
                 Aborts e \<Rightarrow> Aborts e
               | Returns x' \<Rightarrow>
                   (case getShort h3 col of
                      Aborts e \<Rightarrow> Aborts e
                    | Returns y \<Rightarrow>
                        storeCollapsedH X
                          (putShort h3 col (y\<lparr>Key := hexToCompactH X (Key x')\<rparr>))
                          c3 path (RShort col))) = Returns (r, h', c')"
          by (cases ?inner) auto
        have u3: "unchanged h h3"
        proof (cases "Val x")
          case (RFull b)
          with inner obtain r0 h2 c2 y where
            rec: "commitH fuel X h1 c (path @ Key x) (Val x) = Returns (r0, h2, c2)"
            and h3: "h3 = putShort h2 col (y\<lparr>Val := r0\<rparr>)"
            by (auto split: outcome.splits)
          from "2.IH"(1) [OF ca [symmetric, THEN sym] _ False RShort x new [symmetric] RFull] rec
          have "unchanged h1 h2" by auto
          with u1 have "unchanged h h2" by (rule unchanged_trans)
          with h3 col show ?thesis by (simp add: unchanged_putShort)
        qed (use inner u1 in auto)
        from rest obtain x' :: shortNode where
          rest2: "(case getShort h3 col of
                      Aborts e \<Rightarrow> Aborts e
                    | Returns y \<Rightarrow>
                        storeCollapsedH X
                          (putShort h3 col (y\<lparr>Key := hexToCompactH X (Key x')\<rparr>))
                          c3 path (RShort col)) = Returns (r, h', c')"
          by (cases "getShort h3 cn") auto
        then obtain y where
          fin: "storeCollapsedH X (putShort h3 col (y\<lparr>Key := hexToCompactH X (Key x')\<rparr>)) c3 path
              (RShort col) = Returns (r, h', c')"
          by (cases "getShort h3 col") auto
        from storeCollapsedH_heap [OF fin] u3 col show ?thesis
          by (simp add: unchanged_putShort)
      next
        case (RFull cn)
        from run ca False RFull obtain kids h1 c1 x where
          loop: "commitChildrenH fuel X h c path cn 0 (replicate 17 RNil) = Returns (kids, h1, c1)"
          and x: "getFull h1 cn = Returns x"
          by (auto split: outcome.splits)
        obtain col h2 where new: "newFull h1 x = (col, h2)" by (cases "newFull h1 x")
        from "2.IH"(2) [OF ca [symmetric, THEN sym] _ False RFull] loop
        have u1: "unchanged h h1" by auto
        from unchanged_newFull [OF new] have u2: "unchanged h1 h2" and col: "col = length (fulls h1)"
          by simp_all
        from u1 u2 have u: "unchanged h h2" by (rule unchanged_trans)
        from unchanged_length [OF u1] col have le: "length (fulls h) \<le> col" by simp
        from run RFull loop x new have
          fin: "storeCollapsedH X (putFull h2 col (x\<lparr>Children := kids\<rparr>)) c1 path (RFull col)
              = Returns (r, h', c')"
          by simp
        from storeCollapsedH_heap [OF fin] u le show ?thesis
          by (simp add: unchanged_putFull)
      next
        case (RHash hn)
        with run have "h' = h" by simp
        then show ?thesis by (simp add: unchanged_refl)
      qed (use run in simp_all)
    qed
  qed
next
  case (3 fuel X h c path n i children)
  show ?case
  proof (intro allI impI)
    fix rs h' c'
    assume run: "commitChildrenH fuel X h c path n i children = Returns (rs, h', c')"
    from commitChildrenH_bad [OF run] obtain x where x: "getFull h n = Returns x" ..
    show "unchanged h h'"
    proof (cases "i < 16")
      case False
      from commitChildrenH_end [OF False run] show ?thesis by (simp add: unchanged_refl)
    next
      case True
      note step = commitChildrenH_step [OF True x, of fuel X c path children]
      show ?thesis
      proof (cases "slotH (Children x) i")
        case RNil
        with "3.IH"(1) [OF True x RNil] run step show ?thesis by simp
      next
        case (RHash hn)
        with "3.IH"(6) [OF True x RHash] run step show ?thesis by simp
      next
        case (RShort b)
        from run step RShort obtain r h1 c1 where
          cm: "commitH fuel X h c (path @ [of_nat i]) (RShort b) = Returns (r, h1, c1)"
          and rest: "commitChildrenH fuel X h1 c1 path n (i + 1) (children[i := r])
              = Returns (rs, h', c')"
          by (auto split: outcome.splits)
        from "3.IH"(2) [OF True x RShort] cm have "unchanged h h1" by blast
        moreover from "3.IH"(3) [OF True x RShort cm] rest have "unchanged h1 h'" by auto
        ultimately show ?thesis by (rule unchanged_trans)
      next
        case (RFull b)
        from run step RFull obtain r h1 c1 where
          cm: "commitH fuel X h c (path @ [of_nat i]) (RFull b) = Returns (r, h1, c1)"
          and rest: "commitChildrenH fuel X h1 c1 path n (i + 1) (children[i := r])
              = Returns (rs, h', c')"
          by (auto split: outcome.splits)
        from "3.IH"(4) [OF True x RFull] cm have "unchanged h h1" by blast
        moreover from "3.IH"(5) [OF True x RFull cm] rest have "unchanged h1 h'" by auto
        ultimately show ?thesis by (rule unchanged_trans)
      next
        case (RValue v)
        from run step RValue obtain r h1 c1 where
          cm: "commitH fuel X h c (path @ [of_nat i]) (RValue v) = Returns (r, h1, c1)"
          and rest: "commitChildrenH fuel X h1 c1 path n (i + 1) (children[i := r])
              = Returns (rs, h', c')"
          by (auto split: outcome.splits)
        from "3.IH"(7) [OF True x RValue] cm have "unchanged h h1" by blast
        moreover from "3.IH"(8) [OF True x RValue cm] rest have "unchanged h1 h'" by auto
        ultimately show ?thesis by (rule unchanged_trans)
      qed
    qed
  qed
qed
lemma storeCollapsedH_result:
  "storeCollapsedH X h c path n = Returns (r, h', c') \<Longrightarrow> (\<exists>hn. r = RHash hn) \<or> r = n"
  by (auto simp: storeCollapsedH_def split: outcome.splits prod.splits ref.splits)

lemma commitH_result_fresh:
  assumes run: "commitH fuel X h c path n = Returns (r, h', c')"
  shows "freshRef h r"
proof (cases fuel)
  case 0
  with run show ?thesis by (simp add: commitH.simps)
next
  case (Suc f)
  from run Suc obtain hsh drt where ca: "cacheH h n = Returns (hsh, drt)"
    by (auto simp: commitH.simps split: outcome.splits)
  show ?thesis
  proof (cases "hsh \<noteq> None \<and> \<not> drt")
    case True
    with run ca Suc have "r = RHash (the hsh)" by (simp add: commitH.simps)
    then show ?thesis by (simp add: freshRef_def)
  next
    case False
    then have "hsh = None \<or> drt" by auto
    note run' = run [unfolded Suc commitH_dirty [OF ca this]]
    show ?thesis
    proof (cases n)
      case (RShort cn)
      from run' RShort obtain x where x: "getShort h cn = Returns x"
        by (auto split: outcome.splits)
      obtain col h1 where new: "newShort h x = (col, h1)" by (cases "newShort h x")
      from unchanged_newShort [OF new] have col: "col = length (shorts h)" by simp
      from run' RShort x new obtain h4 c3 where
        "storeCollapsedH X h4 c3 path (RShort col) = Returns (r, h', c')"
        by (auto split: outcome.splits)
      from storeCollapsedH_result [OF this] col show ?thesis by (auto simp: freshRef_def)
    next
      case (RFull cn)
      from run' RFull obtain kids h1 c1 x where
        loop: "commitChildrenH f X h c path cn 0 (replicate 17 RNil) = Returns (kids, h1, c1)"
        and x: "getFull h1 cn = Returns x"
        by (auto split: outcome.splits)
      obtain col h2 where new: "newFull h1 x = (col, h2)" by (cases "newFull h1 x")
      from commitH_frame_aux(2) loop have "unchanged h h1" by blast
      with unchanged_length unchanged_newFull [OF new] have col: "length (fulls h) \<le> col"
        by auto
      from run' RFull loop x new have
        "storeCollapsedH X (putFull h2 col (x\<lparr>Children := kids\<rparr>)) c1 path (RFull col)
            = Returns (r, h', c')"
        by simp
      from storeCollapsedH_result [OF this] col show ?thesis by (auto simp: freshRef_def)
    next
      case (RHash hn)
      with run' show ?thesis by (auto simp: freshRef_def)
    qed (use run' in simp_all)
  qed
qed

lemma unchanged_getShort:
  "unchanged h h' \<Longrightarrow> getShort h a = Returns x \<Longrightarrow> getShort h' a = Returns x"
  by (auto simp: unchanged_iff getShort_def nth_append split: if_splits)

lemma unchanged_getFull:
  "unchanged h h' \<Longrightarrow> getFull h a = Returns x \<Longrightarrow> getFull h' a = Returns x"
  by (auto simp: unchanged_iff getFull_def nth_append split: if_splits)


text \<open>
  C10. When \<open>commit\<close> returns, every shortNode and fullNode that existed before the
  call, the node given to it and all its descendants among them, has the key,
  value, children and cache fields it had before; the collapsed node, when it is
  returned instead of a hash, is a new object.
\<close>

theorem commitH_frame:
  assumes "commitH fuel X h c path n = Returns (r, h', c')"
  shows "unchanged h h' \<and> freshRef h r
       \<and> (getShort h a = Returns x \<longrightarrow> getShort h' a = Returns x)
       \<and> (getFull h b = Returns y \<longrightarrow> getFull h' b = Returns y)"
proof -
  from commitH_frame_aux(1) assms have u: "unchanged h h'" by blast
  with commitH_result_fresh [OF assms] unchanged_getShort [OF u] unchanged_getFull [OF u]
  show ?thesis by blast
qed

lemma sample_commitH:
  "commitH (Suc (Suc (Suc 0))) sampleXH sampleHeap emptyCommitterH [] (RShort 0)
     = Returns (RHash [9], committedHeap, committedNodes)"
  by (simp add: commitH.simps commitChildrenH.simps sampleHeap_def sampleXH_def
      emptyCommitterH_def committedHeap_def committedNodes_def cacheH_def getShort_def
      getFull_def newShort_def newFull_def putShort_def putFull_def storeCollapsedH_def
      storeH_def leafValue_def slotH_def AddNode_def AddLeaf_def Let_def nth_append
      eval_nat_numeral)

theorem commitH_frame_witness:
  "commitH (Suc (Suc (Suc 0))) sampleXH sampleHeap emptyCommitterH [] (RShort 0)
     = Returns (RHash [9], committedHeap, committedNodes)
   \<and> unchanged sampleHeap committedHeap
   \<and> getShort committedHeap 0
       = Returns \<lparr>Key = [1], Val = RFull 0, sflags = \<lparr>hash = Some [9], dirty = True\<rparr>\<rparr>
   \<and> getFull committedHeap 0
       = Returns \<lparr>Children = [RNil, RShort 1, RHash [4]] @ replicate 13 RNil @ [RValue [3]],
           fflags = \<lparr>hash = Some [8], dirty = True\<rparr>\<rparr>"
  using commitH_frame [OF sample_commitH, of 0
      "\<lparr>Key = [1], Val = RFull 0, sflags = \<lparr>hash = Some [9], dirty = True\<rparr>\<rparr>" 0
      "\<lparr>Children = [RNil, RShort 1, RHash [4]] @ replicate 13 RNil @ [RValue [3]],
           fflags = \<lparr>hash = Some [8], dirty = True\<rparr>\<rparr>"]
    sample_commitH
  by (simp add: getShort_def getFull_def sampleHeap_def)

end
